theory Spec2Isabelle
  imports Main
begin

section \<open>Python strings\<close>

text \<open>
  A Python \<open>str\<close> is a sequence of Unicode code points, so it is modelled as a list of
  naturals: \<open>len\<close> is \<open>length\<close>, \<open>s[:n]\<close> is \<open>take n s\<close>, \<open>+\<close> is \<open>@\<close> and the empty
  string (the only falsy one) is \<open>[]\<close>. ASCII text is written \<open>U ''...''\<close>; Hangul
  is written as its code points.
\<close>

type_synonym ustr = "nat list"

definition U :: "string \<Rightarrow> ustr" where
  "U s = map of_char s"

text \<open>\<open>str.isspace\<close> on one code point; \<open>str.strip()\<close> and the regex class \<open>\s\<close> use the same set.\<close>

definition isspace :: "nat \<Rightarrow> bool" where
  "isspace c = ((9 \<le> c \<and> c \<le> 13) \<or> (28 \<le> c \<and> c \<le> 32) \<or> c = 133 \<or> c = 160 \<or> c = 5760
     \<or> (8192 \<le> c \<and> c \<le> 8202) \<or> c = 8232 \<or> c = 8233 \<or> c = 8239 \<or> c = 8287 \<or> c = 12288)"

definition py_strip :: "ustr \<Rightarrow> ustr" where
  "py_strip s = rev (dropWhile isspace (rev (dropWhile isspace s)))"

definition ascii_upper :: "nat \<Rightarrow> nat" where
  "ascii_upper c = (if 97 \<le> c \<and> c \<le> 122 then c - 32 else c)"

definition ascii_lower :: "nat \<Rightarrow> nat" where
  "ascii_lower c = (if 65 \<le> c \<and> c \<le> 90 then c + 32 else c)"

definition is_ascii_letter :: "nat \<Rightarrow> bool" where
  "is_ascii_letter c = ((97 \<le> c \<and> c \<le> 122) \<or> (65 \<le> c \<and> c \<le> 90))"

text \<open>\<open>str.lower()\<close>; the pipeline applies it only to what is left of a string once every
  character outside \<open>a-zA-Z\<close> has been deleted.\<close>

definition py_lower :: "ustr \<Rightarrow> ustr" where
  "py_lower s = map ascii_lower s"

definition startswith :: "ustr \<Rightarrow> ustr \<Rightarrow> bool" where
  "startswith s p = (take (length p) s = p)"

text \<open>\<open>p in s\<close> for strings.\<close>

fun contains :: "ustr \<Rightarrow> ustr \<Rightarrow> bool" where
  "contains [] p = (p = [])"
| "contains (c # cs) p = (startswith (c # cs) p \<or> contains cs p)"

fun py_join :: "ustr \<Rightarrow> ustr list \<Rightarrow> ustr" where
  "py_join sep [] = []"
| "py_join sep [x] = x"
| "py_join sep (x # y # ys) = x @ sep @ py_join sep (y # ys)"

text \<open>\<open>list(dict.fromkeys(xs))\<close>: the first occurrence of every element, in order. The
  same accumulation is the \<open>if x not in acc: acc.append(x)\<close> idiom.\<close>

definition append_new :: "'a list \<Rightarrow> 'a \<Rightarrow> 'a list" where
  "append_new acc x = (if x \<in> set acc then acc else acc @ [x])"

definition fromkeys :: "'a list \<Rightarrow> 'a list" where
  "fromkeys xs = foldl append_new [] xs"

text \<open>\<open>d.get(key, default)\<close> on a result dictionary: \<open>None\<close> is the absent key.\<close>

definition dict_get :: "'a option \<Rightarrow> 'a \<Rightarrow> 'a" where
  "dict_get v d = (case v of None \<Rightarrow> d | Some x \<Rightarrow> x)"

section \<open>Exceptions\<close>

text \<open>An exception carries the text \<open>str(e)\<close>. \<open>ValueError\<close> is kept apart because the
  parser has an \<open>except ValueError\<close> of its own.\<close>

datatype error = ValueError ustr | OtherError ustr

fun err_text :: "error \<Rightarrow> ustr" where
  "err_text (ValueError m) = m"
| "err_text (OtherError m) = m"

section \<open>The regular expressions of module \<open>re\<close>\<close>

text \<open>
  The patterns of the source are data of type \<open>rx\<close> and are run by a backtracking
  matcher that returns every way to match, in the order in which Python's engine tries
  them; the match Python reports is the first of the list. A match state is the text
  before the cursor (reversed), the text after it, and the groups captured so far.
\<close>

datatype citem = Ch nat | Rng nat nat | Space

fun in_item :: "citem \<Rightarrow> nat \<Rightarrow> bool" where
  "in_item (Ch a) c = (c = a)"
| "in_item (Rng a b) c = (a \<le> c \<and> c \<le> b)"
| "in_item Space c = isspace c"

definition in_class :: "citem list \<Rightarrow> nat \<Rightarrow> bool" where
  "in_class cs c = list_ex (\<lambda>i. in_item i c) cs"

datatype rx =
    Eps
  | Lit nat
  | Dot
  | In "citem list"
  | NotIn "citem list"
  | Seq rx rx
  | Alt rx rx
  | Opt rx
  | Star rx
  | LazyStar rx
  | Group nat rx
  | NotBehind ustr
  | Bol
  | Eol

record flags =
  ignorecase :: bool
  dotall :: bool

definition no_flags :: flags where
  "no_flags = \<lparr>ignorecase = False, dotall = False\<rparr>"

definition flags_I :: flags where
  "flags_I = \<lparr>ignorecase = True, dotall = False\<rparr>"

definition flags_SI :: flags where
  "flags_SI = \<lparr>ignorecase = True, dotall = True\<rparr>"

type_synonym mstate = "ustr \<times> ustr \<times> (nat \<times> ustr) list"

text \<open>The code points that match a literal under \<open>re.IGNORECASE\<close>: both cases of an ASCII
  letter, and the three non-ASCII partners the engine knows for \<open>s\<close>, \<open>i\<close> and \<open>k\<close>.
  The other literals of the patterns below are Hangul syllables, which have no case.\<close>

definition case_variants :: "nat \<Rightarrow> nat list" where
  "case_variants l =
     (if is_ascii_letter l then
        [ascii_lower l, ascii_upper l] @
        (if ascii_lower l = 115 then [383]
         else if ascii_lower l = 105 then [304, 305]
         else if ascii_lower l = 107 then [8490] else [])
      else [l])"

definition lit_match :: "flags \<Rightarrow> nat \<Rightarrow> nat \<Rightarrow> bool" where
  "lit_match fl l c = (if ignorecase fl then c \<in> set (case_variants l) else c = l)"

fun step_char :: "(nat \<Rightarrow> bool) \<Rightarrow> mstate \<Rightarrow> mstate list" where
  "step_char P (pre, [], g) = []"
| "step_char P (pre, c # cs, g) = (if P c then [(c # pre, cs, g)] else [])"

definition remaining :: "mstate \<Rightarrow> nat" where
  "remaining st = length (fst (snd st))"

text \<open>A repetition goes round again only after an iteration that consumed something;
  an empty iteration ends the loop where it stands.\<close>

function (sequential) rxm :: "flags \<Rightarrow> rx \<Rightarrow> mstate \<Rightarrow> mstate list" where
  "rxm fl Eps st = [st]"
| "rxm fl (Lit l) st = step_char (lit_match fl l) st"
| "rxm fl Dot st = step_char (\<lambda>c. dotall fl \<or> c \<noteq> 10) st"
| "rxm fl (In cs) st = step_char (in_class cs) st"
| "rxm fl (NotIn cs) st = step_char (\<lambda>c. \<not> in_class cs c) st"
| "rxm fl (Seq a b) st = concat (map (rxm fl b) (rxm fl a st))"
| "rxm fl (Alt a b) st = rxm fl a st @ rxm fl b st"
| "rxm fl (Opt a) st = rxm fl a st @ [st]"
| "rxm fl (Star a) st =
     concat (map (\<lambda>st'. if remaining st' < remaining st then rxm fl (Star a) st' else [st'])
                 (rxm fl a st)) @ [st]"
| "rxm fl (LazyStar a) st =
     st # concat (map (\<lambda>st'. if remaining st' < remaining st then rxm fl (LazyStar a) st' else [st'])
                      (rxm fl a st))"
| "rxm fl (Group n a) st =
     map (\<lambda>(pre', rest', g'). (pre', rest', (n, rev (take (length pre' - length (fst st)) pre')) # g'))
         (rxm fl a st)"
| "rxm fl (NotBehind w) st = (if take (length w) (fst st) = rev w then [] else [st])"
| "rxm fl Bol st = (if fst st = [] then [st] else [])"
| "rxm fl Eol st = (if fst (snd st) = [] \<or> fst (snd st) = [10] then [st] else [])"
  by pat_completeness auto
termination
  by (relation "inv_image (less_than <*lex*> less_than) (\<lambda>(fl, r, st). (size r, remaining st))")
     (auto simp: remaining_def)

text \<open>\<open>x+\<close>, a literal string, a sequence and an alternation of several patterns.\<close>

definition Plus1 :: "rx \<Rightarrow> rx" where
  "Plus1 r = Seq r (Star r)"

fun seqs :: "rx list \<Rightarrow> rx" where
  "seqs [] = Eps"
| "seqs [r] = r"
| "seqs (r # rs) = Seq r (seqs rs)"

fun alts :: "rx list \<Rightarrow> rx" where
  "alts [] = Eps"
| "alts [r] = r"
| "alts (r # rs) = Alt r (alts rs)"

definition lits :: "ustr \<Rightarrow> rx" where
  "lits s = seqs (map Lit s)"

text \<open>The first match at the cursor. After an empty match the engine must advance: at
  the same position only a match that consumes something is accepted.\<close>

definition first_match :: "flags \<Rightarrow> rx \<Rightarrow> bool \<Rightarrow> mstate \<Rightarrow> mstate option" where
  "first_match fl r adv st =
     (case filter (\<lambda>m. \<not> adv \<or> remaining m < remaining st) (rxm fl r st) of
        [] \<Rightarrow> None
      | m # _ \<Rightarrow> Some m)"

text \<open>The scan behind \<open>findall\<close> and \<open>sub\<close>: successive non-overlapping matches from left
  to right. \<open>Keep c\<close> is a character outside every match, \<open>Hit m\<close> a match. The counter
  is the number of characters of the last match still to be skipped; at the end of the
  text an empty match is the only one possible.\<close>

datatype piece = Keep nat | Hit mstate

function scan :: "flags \<Rightarrow> rx \<Rightarrow> ustr \<Rightarrow> ustr \<Rightarrow> nat \<Rightarrow> bool \<Rightarrow> piece list" where
  "scan fl r pre [] (Suc k) adv = []"
| "scan fl r pre (c # cs) (Suc k) adv = scan fl r (c # pre) cs k adv"
| "scan fl r pre [] 0 adv =
     (case first_match fl r adv (pre, [], []) of
        None \<Rightarrow> []
      | Some m \<Rightarrow> Hit m # (if adv then [] else scan fl r pre [] 0 True))"
| "scan fl r pre (c # cs) 0 adv =
     (case first_match fl r adv (pre, c # cs, []) of
        None \<Rightarrow> Keep c # scan fl r (c # pre) cs 0 False
      | Some m \<Rightarrow>
          Hit m #
          (if length (c # cs) - remaining m = 0
           then (if adv then [] else scan fl r pre (c # cs) 0 True)
           else scan fl r pre (c # cs) (length (c # cs) - remaining m) False))"
  by pat_completeness auto
termination
  by (relation "inv_image (less_than <*lex*> less_than)
        (\<lambda>(fl, r, pre, rest, k, adv). (length rest, if 0 < k then 0 else if adv then 1 else (2::nat)))")
     auto

definition group :: "mstate \<Rightarrow> nat \<Rightarrow> ustr" where
  "group m n = (case map_of (snd (snd m)) n of None \<Rightarrow> [] | Some t \<Rightarrow> t)"

text \<open>\<open>re.findall\<close> for a pattern with one group, \<open>re.sub(p, "", s)\<close>, \<open>re.search\<close> and
  \<open>re.match\<close>.\<close>

definition re_findall :: "flags \<Rightarrow> rx \<Rightarrow> ustr \<Rightarrow> ustr list" where
  "re_findall fl r s = concat (map (\<lambda>p. case p of Keep c \<Rightarrow> [] | Hit m \<Rightarrow> [group m 1]) (scan fl r [] s 0 False))"

definition re_sub_del :: "flags \<Rightarrow> rx \<Rightarrow> ustr \<Rightarrow> ustr" where
  "re_sub_del fl r s = concat (map (\<lambda>p. case p of Keep c \<Rightarrow> [c] | Hit m \<Rightarrow> []) (scan fl r [] s 0 False))"

fun search_from :: "flags \<Rightarrow> rx \<Rightarrow> ustr \<Rightarrow> ustr \<Rightarrow> mstate option" where
  "search_from fl r pre [] = first_match fl r False (pre, [], [])"
| "search_from fl r pre (c # cs) =
     (case first_match fl r False (pre, c # cs, []) of
        Some m \<Rightarrow> Some m
      | None \<Rightarrow> search_from fl r (c # pre) cs)"

definition re_search :: "flags \<Rightarrow> rx \<Rightarrow> ustr \<Rightarrow> mstate option" where
  "re_search fl r s = search_from fl r [] s"

definition re_match :: "flags \<Rightarrow> rx \<Rightarrow> ustr \<Rightarrow> mstate option" where
  "re_match fl r s = first_match fl r False ([], s, [])"

section \<open>The patterns of \<open>utils/helpers.py\<close> and \<open>core/pipeline.py\<close>\<close>

text \<open>\<^verbatim>\<open>\[.*?\]\((https?://.*?)\)\<close>: a markdown link; group 1 is its target.\<close>

definition markdown_link_regex :: rx where
  "markdown_link_regex =
     seqs [Lit 91, LazyStar Dot, Lit 93, Lit 40,
           Group 1 (seqs [lits (U ''http''), Opt (Lit 115), lits (U ''://''), LazyStar Dot]),
           Lit 41]"

text \<open>\<^verbatim>\<open>(?<!\]\()(https?://[^\s\"'<>]+)\<close>: a bare URL that does not follow \<open>](\<close>.\<close>

definition plain_link_regex :: rx where
  "plain_link_regex =
     seqs [NotBehind [93, 40],
           Group 1 (seqs [lits (U ''http''), Opt (Lit 115), lits (U ''://''),
                          Plus1 (NotIn [Space, Ch 34, Ch 39, Ch 60, Ch 62])])]"

text \<open>The Korean particles of the trailing-junk pattern, in the order of its alternation:
  U+C5D0 U+C11C (eseo), U+C774? U+C640 ((i)wa), U+C774? U+ACFC ((i)gwa), U+C73C? U+B85C
  ((eu)ro), U+C758 (ui), U+C774 (i), U+AC00 (ga), U+C740 (eun), U+B294 (neun).\<close>

definition particles :: rx where
  "particles =
     alts [lits [50640, 49436],
           seqs [Opt (Lit 51060), Lit 50752],
           seqs [Opt (Lit 51060), Lit 44284],
           seqs [Opt (Lit 51004), Lit 47196],
           Lit 51032, Lit 51060, Lit 44032, Lit 51008, Lit 45716]"

text \<open>\<^verbatim>\<open>(\)?\s*(?:...)?\s*[.,;\'\"]*)+$\<close> with the particles above in the inner group.\<close>

definition junk_unit :: rx where
  "junk_unit =
     seqs [Opt (Lit 41), Star (In [Space]), Opt particles, Star (In [Space]),
           Star (In [Ch 46, Ch 44, Ch 59, Ch 39, Ch 34])]"

definition trailing_junk_regex :: rx where
  "trailing_junk_regex = Seq (Plus1 (Group 1 junk_unit)) Eol"

text \<open>\<^verbatim>\<open>[)\s.,;\'\"]+$\<close>\<close>

definition simple_trailing_junk_regex :: rx where
  "simple_trailing_junk_regex = Seq (Plus1 (In [Ch 41, Space, Ch 46, Ch 44, Ch 59, Ch 39, Ch 34])) Eol"

text \<open>\<^verbatim>\<open>(.*?)(?:\n*\s*(?:SRC|Sources)\s*:\s*\n*)(.*)\<close> where SRC is U+CD9C U+CC98 (chulcheo,
  "sources"); used with DOTALL and IGNORECASE.\<close>

definition source_section_regex :: rx where
  "source_section_regex =
     seqs [Group 1 (LazyStar Dot),
           Star (Lit 10), Star (In [Space]),
           Alt (lits [52636, 52376]) (lits (U ''Sources'')),
           Star (In [Space]), Lit 58, Star (In [Space]), Star (Lit 10),
           Group 2 (Star Dot)]"

text \<open>\<^verbatim>\<open>^BODY\s*:\s*\n?\<close> where BODY is U+BCF8 U+BB38 (bonmun, "body text"); used with
  IGNORECASE.\<close>

definition body_label_regex :: rx where
  "body_label_regex =
     seqs [Bol, lits [48376, 47928], Star (In [Space]), Lit 58, Star (In [Space]), Opt (Lit 10)]"

text \<open>\<^verbatim>\<open>Final Answer:\s*(.*)\<close>; used with DOTALL and IGNORECASE.\<close>

definition final_answer_regex :: rx where
  "final_answer_regex = seqs [lits (U ''Final Answer:''), Star (In [Space]), Group 1 (Star Dot)]"

text \<open>\<^verbatim>\<open>[^a-zA-Z]+\<close>\<close>

definition non_letters_regex :: rx where
  "non_letters_regex = Plus1 (NotIn [Rng 97 122, Rng 65 90])"

section \<open>\<open>utils/helpers.py\<close>\<close>

subsection \<open>The fixed strings\<close>

text \<open>The message of \<open>format_search_results\<close> for an empty list of texts ("could not
  find or extract related content").\<close>

definition NO_CONTENT_MSG :: ustr where
  "NO_CONTENT_MSG = [44288, 47144] @ U '' '' @ [45236, 50857, 51012] @ U '' '' @ [52286, 44144, 45208]
     @ U '' '' @ [52628, 52636, 54616, 51648] @ U '' '' @ [47803, 54664, 49845, 45768, 45796] @ U ''.''"

text \<open>\<open>"BODY:\n"\<close> and \<open>"\n\nSRC:\n"\<close>, the two headers of an observation and of the
  sources block of the final answer; \<open>"- "\<close> starts each source line.\<close>

definition BODY_HEADER :: ustr where
  "BODY_HEADER = [48376, 47928] @ U '':'' @ [10]"

definition SOURCES_HEADER :: ustr where
  "SOURCES_HEADER = [10, 10, 52636, 52376] @ U '':'' @ [10]"

definition source_line :: "ustr \<Rightarrow> ustr" where
  "source_line l = U ''- '' @ l"

text \<open>\<open>"--- DOC (" title ") ---\n"\<close> in front of every extracted document.\<close>

definition doc_header :: "ustr \<Rightarrow> ustr" where
  "doc_header t = U ''--- '' @ [47928, 49436] @ U '' ('' @ t @ U '') ---'' @ [10]"

text \<open>The parser's answer for an input that is not a string ("cannot parse"), and its
  placeholder for empty content ("no valid content found in the result").\<close>

definition NOT_PARSABLE_MSG :: ustr where
  "NOT_PARSABLE_MSG = [54028, 49905] @ U '' '' @ [48520, 44032]"

definition NO_VALID_CONTENT_MSG :: ustr where
  "NO_VALID_CONTENT_MSG = [44208, 44284, 50640, 49436] @ U '' '' @ [50976, 54952, 54620] @ U '' ''
     @ [45236, 50857, 51012] @ U '' '' @ [52286, 51648] @ U '' '' @ [47803, 54664, 49845, 45768, 45796] @ U ''.''"

subsection \<open>\<open>_extract_and_process_item\<close>\<close>

text \<open>A search result is a dictionary with the keys \<open>title\<close> and \<open>link\<close>; \<open>None\<close> is the
  absent key. An engine is its three methods, each of which may raise. \<open>preprocess_html\<close>
  is a parameter: it cleans and truncates text and is used only through its result.\<close>

record item =
  title :: "ustr option"
  link :: "ustr option"

record 'r engine =
  search :: "ustr \<Rightarrow> error + 'r"
  extract_text :: "ustr \<Rightarrow> error + ustr"
  extract_main_text_from_html :: "ustr \<Rightarrow> error + ustr"

type_synonym preprocess = "ustr \<Rightarrow> ustr \<Rightarrow> error + ustr"

definition extract_and_process_item ::
  "'r engine \<Rightarrow> preprocess \<Rightarrow> item \<Rightarrow> ustr option \<times> ustr option" where
  "extract_and_process_item eng preprocess_html it =
     (case link it of
        None \<Rightarrow> (None, None)
      | Some l \<Rightarrow>
          if l = [] then (None, None)
          else (case extract_text eng l of
             Inl e \<Rightarrow> (None, None)
           | Inr html \<Rightarrow>
               if html = [] then (None, None)
               else (case extract_main_text_from_html eng html of
                  Inl e \<Rightarrow> (None, None)
                | Inr main_text \<Rightarrow>
                    (case preprocess_html main_text l of
                       Inl e \<Rightarrow> (None, None)
                     | Inr processed_text \<Rightarrow>
                         if processed_text \<noteq> []
                         then (Some (doc_header (dict_get (title it) []) @ processed_text), Some l)
                         else (None, None)))))"

subsection \<open>\<open>format_search_results\<close>\<close>

definition format_search_results :: "ustr list \<Rightarrow> ustr list \<Rightarrow> ustr" where
  "format_search_results processed_texts links =
     (if processed_texts = [] then NO_CONTENT_MSG
      else
        let content_str = py_join [10, 10] processed_texts;
            unique_links = (if links \<noteq> [] then fromkeys (filter (\<lambda>l. l \<noteq> []) links) else [])
        in if unique_links \<noteq> []
           then BODY_HEADER @ content_str @ SOURCES_HEADER @ py_join [10] (map source_line unique_links)
           else BODY_HEADER @ content_str)"

subsection \<open>\<open>parse_agent_observation\<close>\<close>

text \<open>\<open>urllib.parse.urlparse\<close> is a parameter: it returns the scheme and the network
  location of a URL, or raises.\<close>

type_synonym urlparse = "ustr \<Rightarrow> error + (ustr \<times> ustr)"

text \<open>The body of the loop over the raw links, up to the call of \<open>urlparse\<close>.\<close>

definition clean_link :: "ustr \<Rightarrow> ustr" where
  "clean_link l =
     re_sub_del no_flags simple_trailing_junk_regex
       (re_sub_del no_flags trailing_junk_regex (py_strip l))"

text \<open>The loop of step 2. A \<open>ValueError\<close> of \<open>urlparse\<close> is caught inside the loop and the
  link is dropped; any other exception leaves the loop.\<close>

fun clean_links :: "urlparse \<Rightarrow> ustr list \<Rightarrow> ustr list \<Rightarrow> error + ustr list" where
  "clean_links up [] cleaned_links = Inr cleaned_links"
| "clean_links up (l # ls) cleaned_links =
     (if l = [] then clean_links up ls cleaned_links
      else
        let cleaned = clean_link l in
        case up cleaned of
          Inl (ValueError m) \<Rightarrow> clean_links up ls cleaned_links
        | Inl (OtherError m) \<Rightarrow> Inl (OtherError m)
        | Inr (scheme, netloc) \<Rightarrow>
            if scheme \<noteq> [] \<and> netloc \<noteq> []
            then clean_links up ls (append_new cleaned_links cleaned)
            else clean_links up ls cleaned_links)"

text \<open>Step 1: the raw links, markdown targets first.\<close>

definition found_links_raw :: "ustr \<Rightarrow> ustr list" where
  "found_links_raw observation =
     fromkeys (re_findall no_flags markdown_link_regex observation
               @ re_findall no_flags plain_link_regex observation)"

text \<open>Steps 3 to 5: the content, given the links.\<close>

definition extract_content :: "ustr \<Rightarrow> ustr list \<Rightarrow> ustr" where
  "extract_content observation links =
     (let content_part =
            (case re_search flags_SI source_section_regex observation of
               None \<Rightarrow> observation
             | Some m \<Rightarrow> py_strip (group m 1));
          content =
            (if re_match flags_I body_label_regex content_part \<noteq> None
             then py_strip (re_sub_del flags_I body_label_regex content_part)
             else content_part)
      in case re_search flags_SI final_answer_regex observation of
           None \<Rightarrow> content
         | Some m \<Rightarrow>
             let possible_content = py_strip (group m 1) in
             if links \<noteq> [] \<and> length possible_content < length content_part then possible_content
             else if links = [] \<and> possible_content \<noteq> [] then possible_content
             else content)"

text \<open>The \<open>try\<close> block: its result, or the exception that left it.\<close>

definition parse_body :: "urlparse \<Rightarrow> ustr \<Rightarrow> error + (ustr \<times> ustr list)" where
  "parse_body up observation =
     (case clean_links up (found_links_raw observation) [] of
        Inl e \<Rightarrow> Inl e
      | Inr links \<Rightarrow> Inr (extract_content observation links, links))"

text \<open>An argument of the parser is a string or some other object.\<close>

datatype pyarg = PyStr ustr | PyOther

definition parse_agent_observation :: "urlparse \<Rightarrow> pyarg \<Rightarrow> ustr \<times> ustr list" where
  "parse_agent_observation up arg =
     (case arg of
        PyOther \<Rightarrow> (NOT_PARSABLE_MSG, [])
      | PyStr observation \<Rightarrow>
          let (content, links) =
                (case parse_body up observation of
                   Inl e \<Rightarrow> (py_strip observation, [])
                 | Inr r \<Rightarrow> r)
          in (if content = [] then NO_VALID_CONTENT_MSG else content, links))"

section \<open>\<open>core/pipeline.py\<close>: the retrieval tools\<close>

text \<open>The messages of the three adapters: engine not initialised, helpers not imported,
  no result, and the prefix of the message for an exception.\<close>

definition SERP_INIT_FAILED :: ustr where
  "SERP_INIT_FAILED = U ''SerpAPI '' @ [50644, 51652] @ U '' '' @ [52488, 44592, 54868] @ U '' '' @ [49892, 54056]"

definition NAVER_INIT_FAILED :: ustr where
  "NAVER_INIT_FAILED = U ''Naver '' @ [50644, 51652] @ U '' '' @ [52488, 44592, 54868] @ U '' '' @ [49892, 54056]"

definition CES_INIT_FAILED :: ustr where
  "CES_INIT_FAILED = U ''CES '' @ [50644, 51652] @ U '' '' @ [52488, 44592, 54868] @ U '' '' @ [49892, 54056]"

definition HELPER_IMPORT_FAILED :: ustr where
  "HELPER_IMPORT_FAILED = [54764, 54140] @ U '' '' @ [54632, 49688] @ U '' '' @ [51076, 54252, 53944] @ U '' '' @ [49892, 54056]"

definition WEB_SEARCH_PREFIX :: ustr where
  "WEB_SEARCH_PREFIX = [50937] @ U '' '' @ [44160, 49353]"

definition NO_SEARCH_RESULT :: ustr where
  "NO_SEARCH_RESULT = [44160, 49353] @ U '' '' @ [44208, 44284] @ U '' '' @ [50630, 51020] @ U ''.''"

definition NAVER_NO_RESULT :: ustr where
  "NAVER_NO_RESULT = [45348, 51060, 48260] @ U '' '' @ [44160, 49353] @ U '' '' @ [44208, 44284] @ U '' '' @ [50630, 51020]"

definition CES_NO_RESULT :: ustr where
  "CES_NO_RESULT = U ''CES '' @ [44160, 49353] @ U '' '' @ [44208, 44284] @ U '' '' @ [50630, 51020]"

definition SERP_ERROR_PREFIX :: ustr where
  "SERP_ERROR_PREFIX = U ''SerpAPI '' @ [44160, 49353] @ U '' '' @ [52376, 47532] @ U '' '' @ [51473] @ U '' ''
     @ [50724, 47448] @ U '' '' @ [48156, 49373] @ U '': ''"

definition NAVER_ERROR_PREFIX :: ustr where
  "NAVER_ERROR_PREFIX = [45348, 51060, 48260] @ U '' '' @ [44160, 49353] @ U '' '' @ [52376, 47532] @ U '' ''
     @ [51473] @ U '' '' @ [50724, 47448] @ U '' '' @ [48156, 49373] @ U '': ''"

definition CES_ERROR_PREFIX :: ustr where
  "CES_ERROR_PREFIX = U ''CES '' @ [44160, 49353] @ U '' '' @ [52376, 47532] @ U '' '' @ [51473] @ U '' ''
     @ [50724, 47448] @ U '' '' @ [48156, 49373] @ U '': ''"

text \<open>\<open>[x for x in xs if x]\<close> over optional strings: \<open>None\<close> and the empty string are falsy.\<close>

definition truthy :: "ustr option list \<Rightarrow> ustr list" where
  "truthy xs = concat (map (\<lambda>x. case x of None \<Rightarrow> [] | Some s \<Rightarrow> if s = [] then [] else [s]) xs)"

text \<open>\<open>asyncio.gather\<close> over the items returns the results in the order of the items; an
  item's task catches its own exceptions, so the join is a map.\<close>

definition run_naver_async ::
  "(item list) engine option \<Rightarrow> bool \<Rightarrow> preprocess \<Rightarrow> ustr \<Rightarrow> ustr \<times> ustr list" where
  "run_naver_async naver helpers_loaded preprocess_html query =
     (case naver of
        None \<Rightarrow> (NAVER_INIT_FAILED, [])
      | Some eng \<Rightarrow>
          if \<not> helpers_loaded then (HELPER_IMPORT_FAILED, [])
          else (case search eng query of
             Inl e \<Rightarrow> (NAVER_ERROR_PREFIX @ err_text e, [])
           | Inr items \<Rightarrow>
               if items = [] then (NAVER_NO_RESULT, [])
               else
                 let results = map (extract_and_process_item eng preprocess_html) items;
                     valid_texts = truthy (map fst results);
                     valid_links = truthy (map snd results)
                 in (format_search_results valid_texts valid_links, valid_links)))"

definition run_ces_async ::
  "(item list) engine option \<Rightarrow> bool \<Rightarrow> preprocess \<Rightarrow> ustr \<Rightarrow> ustr \<times> ustr list" where
  "run_ces_async ces helpers_loaded preprocess_html query =
     (case ces of
        None \<Rightarrow> (CES_INIT_FAILED, [])
      | Some eng \<Rightarrow>
          if \<not> helpers_loaded then (HELPER_IMPORT_FAILED, [])
          else (case search eng query of
             Inl e \<Rightarrow> (CES_ERROR_PREFIX @ err_text e, [])
           | Inr items \<Rightarrow>
               if items = [] then (CES_NO_RESULT, [])
               else
                 let results = map (extract_and_process_item eng preprocess_html) items;
                     valid_texts = truthy (map fst results);
                     valid_links = truthy (map snd results)
                 in (format_search_results valid_texts valid_links, valid_links)))"

text \<open>SerpAPI answers with a JSON object of type \<open>'r\<close>. \<open>handle_response\<close> turns it into a
  text and \<open>organic_results\<close> reads its list of that name (\<open>None\<close>: the key is absent).\<close>

definition organic_items :: "item list option \<Rightarrow> item list" where
  "organic_items rs =
     (case rs of
        None \<Rightarrow> []
      | Some xs \<Rightarrow>
          map (\<lambda>i. \<lparr>title = Some (dict_get (title i) []), link = Some (dict_get (link i) [])\<rparr>)
              (filter (\<lambda>i. truthy [link i] \<noteq> []) xs))"

definition run_serpapi_async ::
  "'r engine option \<Rightarrow> ('r \<Rightarrow> error + ustr) \<Rightarrow> ('r \<Rightarrow> item list option) \<Rightarrow> bool \<Rightarrow> preprocess
     \<Rightarrow> ustr \<Rightarrow> ustr \<times> ustr list" where
  "run_serpapi_async serp handle_response organic_results helpers_loaded preprocess_html query =
     (case serp of
        None \<Rightarrow> (SERP_INIT_FAILED, [])
      | Some eng \<Rightarrow>
          if \<not> helpers_loaded then (HELPER_IMPORT_FAILED, [])
          else (case search eng query of
             Inl e \<Rightarrow> (SERP_ERROR_PREFIX @ err_text e, [])
           | Inr search_result \<Rightarrow>
               (case handle_response search_result of
                  Inl e \<Rightarrow> (SERP_ERROR_PREFIX @ err_text e, [])
                | Inr handled_result \<Rightarrow>
                    let is_generic_web_search = startswith handled_result WEB_SEARCH_PREFIX;
                        is_no_result = (handled_result = NO_SEARCH_RESULT)
                    in if \<not> is_generic_web_search \<and> \<not> is_no_result then (handled_result, [])
                       else if is_no_result then (handled_result, [])
                       else
                         let items = organic_items (organic_results search_result) in
                         if items = [] then (NO_SEARCH_RESULT, [])
                         else
                           let results = map (extract_and_process_item eng preprocess_html) items;
                               valid_texts = truthy (map fst results);
                               valid_links = truthy (map snd results)
                           in (format_search_results valid_texts valid_links, valid_links))))"

section \<open>\<open>core/pipeline.py\<close>: \<open>run_pipeline\<close>\<close>

subsection \<open>The fixed strings\<close>

text \<open>In the order of the source: the initialisation error; the default and the error of
  the direct answer; the default and the error of the fallback answer; the two pieces of
  the agent's instruction after the query and after the tool name; the prefix of the
  agent's error; the placeholder for an empty final answer.\<close>

definition INIT_ERROR_MSG :: ustr where
  "INIT_ERROR_MSG = [52311, 48391] @ U '' '' @ [52488, 44592, 54868] @ U '' '' @ [50724, 47448] @ U '' '' @ [48156, 49373] @ U ''.''"

definition NO_ANSWER_DEFAULT :: ustr where
  "NO_ANSWER_DEFAULT = [45813, 48320] @ U '' '' @ [49373, 49457] @ U '' '' @ [48520, 44032]"

definition NO_SEARCH_ERROR_MSG :: ustr where
  "NO_SEARCH_ERROR_MSG = [44036, 45800] @ U '' '' @ [45813, 48320] @ U '' '' @ [49373, 49457] @ U '' '' @ [50640, 47084]"

definition FALLBACK_DEFAULT :: ustr where
  "FALLBACK_DEFAULT = [45813, 48320] @ U '' '' @ [50724, 47448]"

definition FALLBACK_ERROR_MSG :: ustr where
  "FALLBACK_ERROR_MSG = [45813, 48320] @ U '' '' @ [49373, 49457] @ U '' '' @ [51473] @ U '' '' @ [50724, 47448]
     @ U '' '' @ [48156, 49373] @ U ''.''"

definition AGENT_INPUT_MID :: ustr where
  "AGENT_INPUT_MID = [39] @ U '' '' @ [53244, 47532, 50640] @ U '' '' @ [45824, 54644] @ U '' '' @ [39]"

definition AGENT_INPUT_END :: ustr where
  "AGENT_INPUT_END = [39] @ U '' '' @ [46020, 44396, 47484] @ U '' '' @ [49324, 50857, 54616, 50668] @ U '' ''
     @ [44288, 47144] @ U '' '' @ [51221, 48372, 47484] @ U '' '' @ [44160, 49353, 54616, 44256] @ U '' '' @ [44536]
     @ U '' '' @ [44208, 44284, 47484] @ U '' '' @ [47568, 54616, 46972] @ U ''.''"

definition AGENT_ERROR_PREFIX :: ustr where
  "AGENT_ERROR_PREFIX = U ''Agent '' @ [49892, 54665] @ U '' '' @ [51473] @ U '' '' @ [50640, 47084] @ U '' ''
     @ [48156, 49373] @ U '': ''"

definition NO_FINAL_ANSWER :: ustr where
  "NO_FINAL_ANSWER = U ''(Agent '' @ [52572, 51333] @ U '' '' @ [45813, 48320] @ U '' '' @ [50630, 51020] @ U '')''"

text \<open>The markers that make the pipeline skip the summary ("error", "failure", "none",
  "impossible", "sorry"), and those that make it drop the fact check's output ("error",
  "cannot confirm the information", "cannot correct").\<close>

definition SUMMARY_SKIP_MARKERS :: "ustr list" where
  "SUMMARY_SKIP_MARKERS = [[50724, 47448], [49892, 54056], [50630, 51020], [48520, 44032],
     [51396, 49569, 54633, 45768, 45796]]"

definition FACT_CHECK_FAIL_MARKERS :: "ustr list" where
  "FACT_CHECK_FAIL_MARKERS = [[50724, 47448],
     [51221, 48372] @ U '' '' @ [54869, 51064] @ U '' '' @ [48520, 44032],
     [49688, 51221] @ U '' '' @ [48520, 44032]]"

text \<open>The texts of the fact check's reference block: no history, no observation, and the
  two headers.\<close>

definition NO_HISTORY :: ustr where
  "NO_HISTORY = U ''('' @ [51060, 51204] @ U '' '' @ [45824, 54868] @ U '' '' @ [50630, 51020] @ U '')''"

definition NO_OBSERVATION_BODY :: ustr where
  "NO_OBSERVATION_BODY = U ''('' @ [44160, 49353, 46108] @ U '' '' @ [48376, 47928] @ U '' '' @ [45236, 50857]
     @ U '' '' @ [50630, 51020] @ U '')''"

definition OBSERVATION_HEADER :: ustr where
  "OBSERVATION_HEADER = U ''['' @ [44160, 49353, 46108] @ U '' '' @ [48376, 47928] @ U '']'' @ [10]"

definition HISTORY_HEADER :: ustr where
  "HISTORY_HEADER = [10, 10] @ U ''['' @ [52572, 44540] @ U '' '' @ [45824, 54868] @ U '' '' @ [44592, 47197]
     @ U '']'' @ [10]"

subsection \<open>The environment of one call\<close>

text \<open>
  The module-level objects are the environment. Each of them may have failed to
  initialise (\<open>None\<close>): the flags say which are there. A chain is its \<open>ainvoke\<close>, which
  returns the value under its output key (\<open>None\<close> when the key is absent) or raises. The
  agent was built on the conversation memory, so it reads and may extend it.
  \<open>str.upper\<close> is exact on ASCII; \<open>upper_nonascii\<close> is its table for the other code points.
\<close>

datatype role = HumanMessage | AIMessage

type_synonym message = "role \<times> ustr"

datatype observation = ObsPair ustr "ustr list" | ObsOther

datatype step = Step ustr observation | BadStep

record agent_result =
  output_text :: "ustr option"
  intermediate_steps :: "step list option"

datatype refine_result = RefineDict "ustr option" | RefineStr ustr | RefineOther

record env =
  has_llm :: bool
  has_decide_chain :: bool
  has_no_search_chain :: bool
  has_refine_chain :: bool
  has_choose_chain :: bool
  has_agent :: bool
  has_search_answer_chain :: bool
  has_fact_check_chain :: bool
  has_parse_agent_observation :: bool
  decide_chain :: "ustr \<Rightarrow> error + ustr option"
  no_search_chain :: "ustr \<Rightarrow> error + ustr option"
  refine_chain :: "ustr \<Rightarrow> error + refine_result"
  choose_chain :: "ustr \<Rightarrow> error + ustr option"
  agent :: "message list \<Rightarrow> ustr \<Rightarrow> (error + agent_result) \<times> message list"
  search_answer_chain :: "ustr \<Rightarrow> ustr \<Rightarrow> error + ustr option"
  fact_check_chain :: "ustr \<Rightarrow> ustr \<Rightarrow> error + ustr option"
  urlparse_fn :: urlparse
  upper_nonascii :: "nat \<Rightarrow> ustr"

text \<open>The state of a call: the conversation memory, and the order in which the call
  invoked its stages and wrote to the memory.\<close>

datatype stage = Decide | NoSearch | Refine | Choose | Agent | Summarize | FactCheck

datatype event = Invoke stage | AddUser ustr | AddAI ustr

record pstate =
  memory :: "message list"
  trace :: "event list"

definition invoke :: "stage \<Rightarrow> pstate \<Rightarrow> pstate" where
  "invoke s st = st\<lparr>trace := trace st @ [Invoke s]\<rparr>"

definition add_user_message :: "ustr \<Rightarrow> pstate \<Rightarrow> pstate" where
  "add_user_message q st = st\<lparr>memory := memory st @ [(HumanMessage, q)], trace := trace st @ [AddUser q]\<rparr>"

definition add_ai_message :: "ustr \<Rightarrow> pstate \<Rightarrow> pstate" where
  "add_ai_message a st = st\<lparr>memory := memory st @ [(AIMessage, a)], trace := trace st @ [AddAI a]\<rparr>"

definition py_upper :: "(nat \<Rightarrow> ustr) \<Rightarrow> ustr \<Rightarrow> ustr" where
  "py_upper tab s = concat (map (\<lambda>c. if c < 128 then [ascii_upper c] else tab c) s)"

subsection \<open>The stages\<close>

text \<open>8-1: the components the pipeline needs, and those the search path checks again.\<close>

definition components_ready :: "env \<Rightarrow> bool" where
  "components_ready env =
     (has_llm env \<and> has_decide_chain env \<and> has_no_search_chain env \<and> has_refine_chain env
      \<and> has_choose_chain env \<and> has_agent env \<and> has_search_answer_chain env
      \<and> has_fact_check_chain env \<and> has_parse_agent_observation env)"

definition search_components_ready :: "env \<Rightarrow> bool" where
  "search_components_ready env =
     (has_agent env \<and> has_refine_chain env \<and> has_choose_chain env
      \<and> has_search_answer_chain env \<and> has_fact_check_chain env)"

text \<open>The decision: \<open>"SEARCH"\<close> when the chain raises, else its output (default
  \<open>"SEARCH"\<close>), stripped and upper-cased.\<close>

definition decide_stage :: "env \<Rightarrow> ustr \<Rightarrow> ustr" where
  "decide_stage env query =
     (case decide_chain env query of
        Inl e \<Rightarrow> U ''SEARCH''
      | Inr r \<Rightarrow> py_upper (upper_nonascii env) (py_strip (dict_get r (U ''SEARCH''))))"

text \<open>The direct answer, cut to 50 characters.\<close>

definition no_search_path :: "env \<Rightarrow> ustr \<Rightarrow> pstate \<Rightarrow> ustr \<times> pstate" where
  "no_search_path env query st =
     (let st1 = invoke NoSearch (add_user_message query st) in
      case no_search_chain env query of
        Inl e \<Rightarrow> (NO_SEARCH_ERROR_MSG, st1)
      | Inr r \<Rightarrow>
          let answer = take 50 (py_strip (dict_get r NO_ANSWER_DEFAULT))
          in (answer, add_ai_message answer st1))"

text \<open>The fallback of the search path when one of its components is missing: the direct
  answer again, cut to 20 characters.\<close>

definition fallback_path :: "env \<Rightarrow> ustr \<Rightarrow> pstate \<Rightarrow> ustr \<times> pstate" where
  "fallback_path env query st =
     (let st1 = invoke NoSearch (add_user_message query st) in
      case no_search_chain env query of
        Inl e \<Rightarrow> (FALLBACK_ERROR_MSG, st1)
      | Inr r \<Rightarrow>
          let fallback_answer = take 20 (py_strip (dict_get r FALLBACK_DEFAULT))
          in (fallback_answer, add_ai_message fallback_answer st1))"

text \<open>2: the refined query; the query itself when the chain raises, returns something
  that is neither a dictionary nor a string, or returns an empty text.\<close>

definition refine_stage :: "env \<Rightarrow> ustr \<Rightarrow> ustr" where
  "refine_stage env query =
     (case refine_chain env query of
        Inl e \<Rightarrow> query
      | Inr res \<Rightarrow>
          let refined =
                (case res of
                   RefineDict v \<Rightarrow> py_strip (dict_get v query)
                 | RefineStr t \<Rightarrow> py_strip t
                 | RefineOther \<Rightarrow> query)
          in if refined = [] then query else refined)"

text \<open>3: the engine; \<open>"ces"\<close> when the chain raises or names no known engine.\<close>

definition ENGINES :: "ustr list" where
  "ENGINES = [U ''serpapi'', U ''naver'', U ''ces'']"

definition normalize_engine_name :: "ustr \<Rightarrow> ustr" where
  "normalize_engine_name engine_name_raw = py_lower (re_sub_del no_flags non_letters_regex engine_name_raw)"

definition choose_stage :: "env \<Rightarrow> ustr \<Rightarrow> ustr" where
  "choose_stage env refined =
     (case choose_chain env refined of
        Inl e \<Rightarrow> U ''ces''
      | Inr r \<Rightarrow>
          let engine_name_raw = py_strip (dict_get r (U ''CES''));
              engine_name = normalize_engine_name engine_name_raw
          in if engine_name \<in> set ENGINES then engine_name else U ''ces'')"

text \<open>4: the tool of an engine (\<open>tool_map.get(engine_name, "ces_search")\<close>) and the
  instruction given to the agent.\<close>

definition TOOL_NAMES :: "ustr list" where
  "TOOL_NAMES = [U ''serpapi_search'', U ''naver_search'', U ''ces_search'']"

definition tool_map_get :: "ustr \<Rightarrow> ustr" where
  "tool_map_get engine_name =
     (if engine_name = U ''serpapi'' then U ''serpapi_search''
      else if engine_name = U ''naver'' then U ''naver_search''
      else if engine_name = U ''ces'' then U ''ces_search''
      else U ''ces_search'')"

definition agent_input :: "ustr \<Rightarrow> ustr \<Rightarrow> ustr" where
  "agent_input refined selected_tool_name =
     [39] @ refined @ AGENT_INPUT_MID @ selected_tool_name @ AGENT_INPUT_END"

text \<open>The loop over \<open>reversed(intermediate_steps)\<close>, given the steps newest first: the first
  step of a retrieval tool whose observation is a (string, list) pair.\<close>

fun last_tool_observation :: "step list \<Rightarrow> (ustr \<times> ustr list) option" where
  "last_tool_observation [] = None"
| "last_tool_observation (Step tool (ObsPair obs_str src_links) # steps) =
     (if tool \<in> set TOOL_NAMES then Some (obs_str, src_links) else last_tool_observation steps)"
| "last_tool_observation (s # steps) = last_tool_observation steps"

text \<open>What the \<open>try\<close> block around the agent leaves behind: the final answer, the
  observation for the fact check and the original source links.\<close>

definition agent_outcome :: "error + agent_result \<Rightarrow> ustr \<times> ustr \<times> ustr list" where
  "agent_outcome res =
     (case res of
        Inl e \<Rightarrow> (AGENT_ERROR_PREFIX @ err_text e, [], [])
      | Inr r \<Rightarrow>
          let final_answer_str = py_strip (dict_get (output_text r) []);
              steps = dict_get (intermediate_steps r) [];
              (obs, links) = (case last_tool_observation (rev steps) of
                                None \<Rightarrow> ([], [])
                              | Some p \<Rightarrow> p)
          in (final_answer_str, if obs = [] then final_answer_str else obs, links))"

text \<open>5: the body of the agent's final answer; the links the parser finds are dropped.\<close>

definition parse_stage :: "env \<Rightarrow> ustr \<Rightarrow> ustr" where
  "parse_stage env final_answer_str =
     (if final_answer_str \<noteq> [] \<and> has_parse_agent_observation env then
        (let parsed_body = fst (parse_agent_observation (urlparse_fn env) (PyStr final_answer_str))
         in if parsed_body \<noteq> [] then parsed_body else final_answer_str)
      else if final_answer_str = [] then NO_FINAL_ANSWER
      else final_answer_str)"

text \<open>6: the summary; skipped for empty content and for content that holds a marker.\<close>

definition summary_stage :: "env \<Rightarrow> ustr \<Rightarrow> ustr \<Rightarrow> pstate \<Rightarrow> ustr \<times> pstate" where
  "summary_stage env extracted_content refined st =
     (if extracted_content \<noteq> []
         \<and> \<not> list_ex (contains extracted_content) SUMMARY_SKIP_MARKERS
         \<and> has_search_answer_chain env
      then
        (case search_answer_chain env extracted_content refined of
           Inl e \<Rightarrow> (extracted_content, invoke Summarize st)
         | Inr r \<Rightarrow>
             let temp_summary = py_strip (dict_get r [])
             in (if temp_summary \<noteq> [] then temp_summary else extracted_content, invoke Summarize st))
      else (extracted_content, st))"

text \<open>The fact check. Its history is the last two messages of the memory, one per line
  as \<open>"<class name>: <content>"\<close>; its evidence is the first 2000 characters of the
  stripped observation.\<close>

definition role_name :: "role \<Rightarrow> ustr" where
  "role_name r = (case r of HumanMessage \<Rightarrow> U ''HumanMessage'' | AIMessage \<Rightarrow> U ''AIMessage'')"

definition history_text :: "message list \<Rightarrow> ustr" where
  "history_text msgs =
     (let history_messages = drop (length msgs - 2) msgs;
          t = py_join [10] (map (\<lambda>(r, c). role_name r @ U '': '' @ c) history_messages)
      in if t = [] then NO_HISTORY else t)"

definition combined_history :: "ustr \<Rightarrow> message list \<Rightarrow> ustr" where
  "combined_history agent_observation_for_factcheck msgs =
     (let stripped_observation = py_strip agent_observation_for_factcheck;
          agent_observation_body =
            (if stripped_observation \<noteq> [] then stripped_observation else NO_OBSERVATION_BODY)
      in OBSERVATION_HEADER @ take 2000 agent_observation_body @ HISTORY_HEADER @ history_text msgs)"

definition fact_check_stage :: "env \<Rightarrow> ustr \<Rightarrow> ustr \<Rightarrow> pstate \<Rightarrow> ustr \<times> pstate" where
  "fact_check_stage env summary agent_observation_for_factcheck st =
     (if has_fact_check_chain env then
        (case fact_check_chain env summary (combined_history agent_observation_for_factcheck (memory st)) of
           Inl e \<Rightarrow> (summary, invoke FactCheck st)
         | Inr r \<Rightarrow>
             let temp_checked = py_strip (dict_get r [])
             in (if temp_checked \<noteq> [] \<and> \<not> list_ex (contains temp_checked) FACT_CHECK_FAIL_MARKERS
                 then temp_checked else summary,
                 invoke FactCheck st))
      else (summary, st))"

text \<open>8: the sources block, built from the original source links.\<close>

definition attach_links :: "ustr \<Rightarrow> ustr list \<Rightarrow> ustr" where
  "attach_links final_answer_body original_source_links =
     (if original_source_links \<noteq> [] then
        (let unique_links = fromkeys (filter (\<lambda>l. l \<noteq> []) original_source_links)
         in if unique_links \<noteq> []
            then final_answer_body @ SOURCES_HEADER @ py_join [10] (map source_line unique_links)
            else final_answer_body)
      else final_answer_body)"

text \<open>The search path up to the fact check: the checked summary, the original source
  links and the state.\<close>

definition search_stages :: "env \<Rightarrow> ustr \<Rightarrow> pstate \<Rightarrow> ustr \<times> ustr list \<times> pstate" where
  "search_stages env query st =
     (let refined = refine_stage env query;
          st2 = invoke Refine st;
          engine_name = choose_stage env refined;
          st3 = invoke Choose st2;
          selected_tool_name = tool_map_get engine_name;
          (res, mem) = agent env (memory st3) (agent_input refined selected_tool_name);
          st4 = (invoke Agent st3)\<lparr>memory := mem\<rparr>;
          (final_answer_str, agent_observation_for_factcheck, original_source_links) = agent_outcome res;
          st5 = add_user_message query st4;
          extracted_content = parse_stage env final_answer_str;
          (summary, st6) = summary_stage env extracted_content refined st5;
          (checked_summary, st7) = fact_check_stage env summary agent_observation_for_factcheck st6
      in (checked_summary, original_source_links, st7))"

text \<open>The rest of the search path: the sources block and the assistant message.\<close>

definition search_path :: "env \<Rightarrow> ustr \<Rightarrow> pstate \<Rightarrow> ustr \<times> pstate" where
  "search_path env query st =
     (let (checked_summary, original_source_links, st7) = search_stages env query st;
          final_answer_with_links = attach_links checked_summary original_source_links
      in (final_answer_with_links, add_ai_message final_answer_with_links st7))"

definition run_pipeline :: "env \<Rightarrow> ustr \<Rightarrow> pstate \<Rightarrow> ustr \<times> pstate" where
  "run_pipeline env query st =
     (if \<not> components_ready env then (INIT_ERROR_MSG, st)
      else
        let decision = decide_stage env query;
            st1 = invoke Decide st
        in if decision = U ''NO_SEARCH'' then no_search_path env query st1
           else if \<not> search_components_ready env then fallback_path env query st1
           else search_path env query st1)"

text \<open>The agent's call in the search path, for a state before the refinement: what it
  returns and the memory it leaves.\<close>

definition agent_call :: "env \<Rightarrow> ustr \<Rightarrow> pstate \<Rightarrow> (error + agent_result) \<times> message list" where
  "agent_call env query st =
     agent env (memory st)
       (agent_input (refine_stage env query) (tool_map_get (choose_stage env (refine_stage env query))))"

section \<open>Environments for running the model\<close>

text \<open>A stand-in for \<open>urlparse\<close> on plain URLs: the scheme is the run of letters before
  the first colon, the network location what follows \<open>//\<close> up to the next \<open>/\<close>, \<open>?\<close>
  or \<open>#\<close>.\<close>

definition urlparse_plain :: urlparse where
  "urlparse_plain url =
     (let scheme = takeWhile (\<lambda>c. c \<noteq> 58) url;
          rest = drop (length scheme + 1) url
      in if scheme \<noteq> [] \<and> length scheme < length url \<and> list_all is_ascii_letter scheme
         then Inr (py_lower scheme,
                   if startswith rest (U ''//'')
                   then takeWhile (\<lambda>c. c \<noteq> 47 \<and> c \<noteq> 63 \<and> c \<noteq> 35) (drop 2 rest)
                   else [])
         else Inr ([], []))"

text \<open>A \<open>urlparse\<close> that fails with an exception other than \<open>ValueError\<close>.\<close>

definition urlparse_broken :: urlparse where
  "urlparse_broken url = Inl (OtherError (U ''boom''))"

text \<open>Every component is there and answers: the decision is \<open>SEARCH\<close>, the query is
  refined to itself, the selector says \<open>Naver.\<close>, the agent answers \<open>ok\<close> without calling
  a tool, and the summary and the fact check return their input.\<close>

definition base_env :: env where
  "base_env =
     \<lparr>has_llm = True, has_decide_chain = True, has_no_search_chain = True,
      has_refine_chain = True, has_choose_chain = True, has_agent = True,
      has_search_answer_chain = True, has_fact_check_chain = True,
      has_parse_agent_observation = True,
      decide_chain = (\<lambda>q. Inr (Some (U ''SEARCH''))),
      no_search_chain = (\<lambda>q. Inr (Some (U ''hi''))),
      refine_chain = (\<lambda>q. Inr (RefineStr q)),
      choose_chain = (\<lambda>q. Inr (Some (U ''Naver.''))),
      agent = (\<lambda>mem inp. (Inr \<lparr>output_text = Some (U ''ok''), intermediate_steps = Some []\<rparr>, mem)),
      search_answer_chain = (\<lambda>content q. Inr (Some content)),
      fact_check_chain = (\<lambda>answer history. Inr (Some answer)),
      urlparse_fn = urlparse_plain,
      upper_nonascii = (\<lambda>c. [c])\<rparr>"

definition empty_state :: pstate where
  "empty_state = \<lparr>memory = [], trace = []\<rparr>"

text \<open>The decision chain raises.\<close>

definition env_decide_raises :: env where
  "env_decide_raises = base_env\<lparr>decide_chain := (\<lambda>q. Inl (OtherError (U ''timeout'')))\<rparr>"

text \<open>The decision is \<open>no_search\<close> and the direct answer is two blanks.\<close>

definition env_blank_answer :: env where
  "env_blank_answer =
     base_env\<lparr>decide_chain := (\<lambda>q. Inr (Some (U ''no_search''))),
              no_search_chain := (\<lambda>q. Inr (Some (U ''  '')))\<rparr>"

text \<open>The agent reports whether the memory it was given is empty.\<close>

definition env_agent_reads_memory :: env where
  "env_agent_reads_memory =
     base_env\<lparr>agent := (\<lambda>mem inp.
        (Inr \<lparr>output_text = Some (if mem = [] then U ''empty'' else U ''filled''),
              intermediate_steps = Some []\<rparr>, mem))\<rparr>"

text \<open>The agent's final answer holds a URL, and no tool was called.\<close>

definition env_url_in_answer :: env where
  "env_url_in_answer =
     base_env\<lparr>agent := (\<lambda>mem inp.
        (Inr \<lparr>output_text = Some (U ''see http://a.b''), intermediate_steps = Some []\<rparr>, mem))\<rparr>"

text \<open>An agent whose last retrieval step returned a link list with repetitions.\<close>

definition env_tool_links :: env where
  "env_tool_links =
     base_env\<lparr>agent := (\<lambda>mem inp.
        (Inr \<lparr>output_text = Some (U ''ok''),
              intermediate_steps =
                Some [Step (U ''naver_search'')
                        (ObsPair (U ''text'') [U ''http://a'', U ''http://a'', U ''http://b'', U ''http://a''])]\<rparr>,
         mem))\<rparr>"

text \<open>The query of the spec's direct-answer scenario: the single letter U+3147.\<close>

definition query_ieung :: ustr where
  "query_ieung = [12615]"

text \<open>An engine that finds three pages, the second of which cannot be fetched; for the
  query \<open>bad\<close> it finds only that page, for \<open>none\<close> nothing, and for \<open>down\<close> it raises. Its
  result type serves the SerpAPI adapter as well, with the list itself as \<open>organic_results\<close>.\<close>

definition demo_items :: "item list" where
  "demo_items = [\<lparr>title = Some (U ''A''), link = Some (U ''http://a'')\<rparr>,
                 \<lparr>title = Some (U ''B''), link = Some (U ''http://b'')\<rparr>,
                 \<lparr>title = None, link = Some (U ''http://c'')\<rparr>]"

definition demo_engine :: "(item list) engine" where
  "demo_engine =
     \<lparr>search = (\<lambda>q. if q = U ''down'' then Inl (OtherError (U ''timeout''))
                     else if q = U ''none'' then Inr []
                     else if q = U ''bad'' then Inr [\<lparr>title = Some (U ''B''), link = Some (U ''http://b'')\<rparr>]
                     else Inr demo_items),
      extract_text = (\<lambda>l. if l = U ''http://b'' then Inl (OtherError (U ''404'')) else Inr (U ''<p>x</p>'')),
      extract_main_text_from_html = (\<lambda>h. Inr (U ''x''))\<rparr>"

definition demo_preprocess :: preprocess where
  "demo_preprocess t url = Inr t"

definition demo_handle_response :: "item list \<Rightarrow> error + ustr" where
  "demo_handle_response r = Inr (WEB_SEARCH_PREFIX @ U '' 3'')"

text \<open>The decision chain answers \<open>no_Search\<close> in mixed case, with blanks around it and a
  newline after it.\<close>

definition env_decide_padded :: env where
  "env_decide_padded = base_env\<lparr>decide_chain := (\<lambda>q. Inr (Some (U ''  no_Search '' @ [10])))\<rparr>"

text \<open>The decision chain answers \<open>search\<close> in lower case, followed by a blank.\<close>

definition env_decide_lower :: env where
  "env_decide_lower = base_env\<lparr>decide_chain := (\<lambda>q. Inr (Some (U ''search '')))\<rparr>"

text \<open>The fact check returns its answer followed by a sources block of its own, as its
  prompt asks; the agent calls no tool.\<close>

definition env_factcheck_sources :: env where
  "env_factcheck_sources =
     base_env\<lparr>fact_check_chain :=
       (\<lambda>answer history. Inr (Some (answer @ SOURCES_HEADER @ source_line (U ''http://x''))))\<rparr>"

text \<open>An engine that finds four pages, three of them under the same link.\<close>

definition dup_engine :: "(item list) engine" where
  "dup_engine =
     \<lparr>search = (\<lambda>q. Inr [\<lparr>title = Some (U ''1''), link = Some (U ''http://a'')\<rparr>,
                          \<lparr>title = Some (U ''2''), link = Some (U ''http://a'')\<rparr>,
                          \<lparr>title = Some (U ''3''), link = Some (U ''http://b'')\<rparr>,
                          \<lparr>title = Some (U ''4''), link = Some (U ''http://a'')\<rparr>]),
      extract_text = (\<lambda>l. Inr (U ''<p>x</p>'')),
      extract_main_text_from_html = (\<lambda>h. Inr (U ''x''))\<rparr>"

text \<open>The agent raises.\<close>

definition env_agent_raises :: env where
  "env_agent_raises = base_env\<lparr>agent := (\<lambda>mem inp. (Inl (OtherError (U ''boom'')), mem))\<rparr>"

text \<open>An agent whose trace holds an older retrieval step, a step of another tool, the
  most recent retrieval step and a malformed step.\<close>

definition env_two_steps :: env where
  "env_two_steps =
     base_env\<lparr>agent := (\<lambda>mem inp.
        (Inr \<lparr>output_text = Some (U ''ok''),
              intermediate_steps =
                Some [Step (U ''naver_search'') (ObsPair (U ''old'') [U ''http://c'']),
                      Step (U ''calculator'') ObsOther,
                      Step (U ''ces_search'') (ObsPair (U ''text'') [U ''http://a'', U ''http://b'']),
                      BadStep]\<rparr>,
         mem))\<rparr>"

section \<open>Words matched by a pattern\<close>

inductive_set star :: "ustr set \<Rightarrow> ustr set" for L :: "ustr set" where
  star_nil: "[] \<in> star L"
| star_app: "u \<in> L \<Longrightarrow> v \<in> star L \<Longrightarrow> u @ v \<in> star L"

fun pure :: "rx \<Rightarrow> bool" where
  "pure (Seq a b) = (pure a \<and> pure b)"
| "pure (Alt a b) = (pure a \<and> pure b)"
| "pure (Opt a) = pure a"
| "pure (Star a) = pure a"
| "pure (LazyStar a) = pure a"
| "pure (Group n a) = pure a"
| "pure (NotBehind w) = False"
| "pure Bol = False"
| "pure Eol = False"
| "pure r = True"

fun lang :: "flags \<Rightarrow> rx \<Rightarrow> ustr set" where
  "lang fl Eps = {[]}"
| "lang fl (Lit l) = {w. \<exists>c. w = [c] \<and> lit_match fl l c}"
| "lang fl Dot = {w. \<exists>c. w = [c] \<and> (dotall fl \<or> c \<noteq> 10)}"
| "lang fl (In cs) = {w. \<exists>c. w = [c] \<and> in_class cs c}"
| "lang fl (NotIn cs) = {w. \<exists>c. w = [c] \<and> \<not> in_class cs c}"
| "lang fl (Seq a b) = {w. \<exists>u v. w = u @ v \<and> u \<in> lang fl a \<and> v \<in> lang fl b}"
| "lang fl (Alt a b) = lang fl a \<union> lang fl b"
| "lang fl (Opt a) = insert [] (lang fl a)"
| "lang fl (Star a) = star (lang fl a)"
| "lang fl (LazyStar a) = star (lang fl a)"
| "lang fl (Group n a) = lang fl a"
| "lang fl (NotBehind w) = {[]}"
| "lang fl Bol = {[]}"
| "lang fl Eol = {[]}"

fun strip_at :: "flags \<Rightarrow> rx \<Rightarrow> ustr \<Rightarrow> ustr \<Rightarrow> ustr" where
  "strip_at fl r pre [] = []"
| "strip_at fl r pre (c # cs) =
     (if rxm fl r (pre, c # cs, []) = [] then c # strip_at fl r (c # pre) cs else [])"

definition kept :: "piece list \<Rightarrow> ustr" where
  "kept ps = concat (map (\<lambda>p. case p of Keep c \<Rightarrow> [c] | Hit m \<Rightarrow> []) ps)"

text \<open>The words that the first cleaning pattern deletes at the end of a link.\<close>

definition junk :: "ustr set" where
  "junk = lang no_flags (Plus1 (Group 1 junk_unit))"

text \<open>\<open>all([result.scheme, result.netloc])\<close> for the result of \<open>urlparse\<close>.\<close>

definition well_formed :: "urlparse \<Rightarrow> ustr \<Rightarrow> bool" where
  "well_formed up l = (case up l of Inl e \<Rightarrow> False | Inr (scheme, netloc) \<Rightarrow> scheme \<noteq> [] \<and> netloc \<noteq> [])"


text \<open>The selector answers \<open>Serp-API 1\<close> between blanks, an engine that does not exist, or
  raises.\<close>

definition env_choose_serp :: env where
  "env_choose_serp = base_env\<lparr>choose_chain := (\<lambda>q. Inr (Some (U '' Serp-API 1'' @ [10])))\<rparr>"

definition env_choose_unknown :: env where
  "env_choose_unknown = base_env\<lparr>choose_chain := (\<lambda>q. Inr (Some (U ''google'')))\<rparr>"

definition env_choose_raises :: env where
  "env_choose_raises = base_env\<lparr>choose_chain := (\<lambda>q. Inl (OtherError (U ''timeout'')))\<rparr>"

text \<open>The spec's example of a link with trailing junk, alone and inside a sentence; and a
  markdown link with a title together with the link the parser makes of it.\<close>

definition example_link :: ustr where
  "example_link = U ''https://example.com/page''"

definition example_raw :: ustr where
  "example_raw = U ''https://example.com/page)'' @ [50640, 49436]"

definition example_text :: ustr where
  "example_text = U ''see https://example.com/page)'' @ [50640, 49436] @ U '' now''"

definition titled_text :: ustr where
  "titled_text = U ''[x](http://a.b '' @ [34] @ U ''T'' @ [34] @ U '')''"

definition titled_raw :: ustr where
  "titled_raw = U ''http://a.b '' @ [34] @ U ''T'' @ [34]"

definition titled_link :: ustr where
  "titled_link = U ''http://a.b '' @ [34] @ U ''T''"

section \<open>Evaluating the patterns\<close>

text \<open>The equations that run the matcher on a given text.\<close>

lemmas rx_eval =
  in_class_def isspace_def remaining_def first_match_def no_flags_def flags_I_def flags_SI_def
  U_def Plus1_def lit_match_def case_variants_def is_ascii_letter_def ascii_lower_def ascii_upper_def
  re_findall_def re_sub_del_def re_search_def re_match_def group_def lits_def
  markdown_link_regex_def plain_link_regex_def trailing_junk_regex_def junk_unit_def particles_def
  simple_trailing_junk_regex_def source_section_regex_def body_label_regex_def final_answer_regex_def
  non_letters_regex_def

section \<open>The decision stage\<close>

lemma SEARCH_neq_NO_SEARCH: "U ''SEARCH'' \<noteq> U ''NO_SEARCH''"
  by (simp add: U_def)

lemma ready_search: "components_ready env \<Longrightarrow> search_components_ready env"
  by (simp add: components_ready_def search_components_ready_def)

section \<open>The shape of a call\<close>

lemma invoke_simps [simp]:
  "memory (invoke s st) = memory st" "trace (invoke s st) = trace st @ [Invoke s]"
  by (simp_all add: invoke_def)

lemma add_user_message_simps [simp]:
  "memory (add_user_message q st) = memory st @ [(HumanMessage, q)]"
  "trace (add_user_message q st) = trace st @ [AddUser q]"
  by (simp_all add: add_user_message_def)

lemma add_ai_message_simps [simp]:
  "memory (add_ai_message a st) = memory st @ [(AIMessage, a)]"
  "trace (add_ai_message a st) = trace st @ [AddAI a]"
  by (simp_all add: add_ai_message_def)

lemma summary_stage_state:
  "memory (snd (summary_stage env c r st)) = memory st
   \<and> (trace (snd (summary_stage env c r st)) = trace st
        \<or> trace (snd (summary_stage env c r st)) = trace st @ [Invoke Summarize])"
  by (simp add: summary_stage_def Let_def split: sum.splits)

lemma fact_check_stage_state:
  "memory (snd (fact_check_stage env s obs st)) = memory st
   \<and> (trace (snd (fact_check_stage env s obs st)) = trace st
        \<or> trace (snd (fact_check_stage env s obs st)) = trace st @ [Invoke FactCheck])"
  by (simp add: fact_check_stage_def Let_def split: sum.splits)

lemma search_stages_links:
  "fst (snd (search_stages env q st)) = snd (snd (agent_outcome (fst (agent_call env q st))))"
  by (simp add: search_stages_def agent_call_def Let_def split_beta)

lemma search_path_answer:
  "fst (search_path env q st)
     = attach_links (fst (search_stages env q st)) (fst (snd (search_stages env q st)))"
  by (simp add: search_path_def Let_def split_beta)

lemma search_stages_state:
  "\<exists>mid. trace (snd (snd (search_stages env q st)))
            = trace st @ [Invoke Refine, Invoke Choose, Invoke Agent, AddUser q] @ mid
         \<and> set mid \<subseteq> {Invoke Summarize, Invoke FactCheck}
         \<and> memory (snd (snd (search_stages env q st)))
            = snd (agent_call env q st) @ [(HumanMessage, q)]"
proof -
  define refined where "refined = refine_stage env q"
  define res where "res = agent_call env q st"
  define st5 where "st5 = add_user_message q ((invoke Agent (invoke Choose (invoke Refine st)))\<lparr>memory := snd res\<rparr>)"
  define out where "out = agent_outcome (fst res)"
  define sm where "sm = summary_stage env (parse_stage env (fst out)) refined st5"
  define fc where "fc = fact_check_stage env (fst sm) (fst (snd out)) (snd sm)"
  have e: "snd (snd (search_stages env q st)) = snd fc"
    by (simp add: search_stages_def agent_call_def Let_def split_beta fc_def sm_def out_def st5_def res_def refined_def)
  have t5: "trace st5 = trace st @ [Invoke Refine, Invoke Choose, Invoke Agent, AddUser q]"
    and m5: "memory st5 = snd res @ [(HumanMessage, q)]"
    by (simp_all add: st5_def invoke_def add_user_message_def)
  from summary_stage_state [of env "parse_stage env (fst out)" refined st5]
  have ms: "memory (snd sm) = memory st5"
    and ts: "trace (snd sm) = trace st5 \<or> trace (snd sm) = trace st5 @ [Invoke Summarize]"
    by (simp_all add: sm_def)
  from fact_check_stage_state [of env "fst sm" "fst (snd out)" "snd sm"]
  have mf: "memory (snd fc) = memory (snd sm)"
    and tf: "trace (snd fc) = trace (snd sm) \<or> trace (snd fc) = trace (snd sm) @ [Invoke FactCheck]"
    by (simp_all add: fc_def)
  from ts tf obtain mid where "trace (snd fc) = trace st5 @ mid" "set mid \<subseteq> {Invoke Summarize, Invoke FactCheck}"
    by (elim disjE) auto
  with e t5 m5 ms mf show ?thesis
    unfolding res_def by auto
qed

section \<open>Running the model on the example environments\<close>

lemma strip_plain:
  "s \<noteq> [] \<Longrightarrow> \<not> isspace (hd s) \<Longrightarrow> \<not> isspace (last s) \<Longrightarrow> py_strip s = s"
proof -
  assume a: "s \<noteq> []" "\<not> isspace (hd s)" "\<not> isspace (last s)"
  then have 1: "dropWhile isspace s = s" by (cases s) auto
  from a have "rev s \<noteq> []" "\<not> isspace (hd (rev s))" by (simp_all add: hd_rev)
  then have 2: "dropWhile isspace (rev s) = rev s" by (cases "rev s") auto
  show ?thesis by (simp add: py_strip_def 1 2)
qed

lemma parse_empty_word:
  "parse_agent_observation urlparse_plain (PyStr (U ''empty'')) = (U ''empty'', [])"
proof -
  have l: "found_links_raw (U ''empty'') = []"
    by (simp add: found_links_raw_def fromkeys_def rx_eval)
  have s1: "re_search flags_SI source_section_regex (U ''empty'') = None"
    by (simp add: rx_eval)
  have s2: "re_match flags_I body_label_regex (U ''empty'') = None"
    by (simp add: rx_eval)
  have s3: "re_search flags_SI final_answer_regex (U ''empty'') = None"
    by (simp add: rx_eval)
  have c: "extract_content (U ''empty'') [] = U ''empty''"
    by (simp add: extract_content_def s1 s2 s3)
  have n: "U ''empty'' \<noteq> []" by (simp add: U_def)
  show ?thesis
    by (simp add: parse_agent_observation_def parse_body_def l c n)
qed

lemma choose_base: "choose_chain env r = Inr (Some (U ''Naver.'')) \<Longrightarrow> choose_stage env r = U ''naver''"
proof -
  assume a: "choose_chain env r = Inr (Some (U ''Naver.''))"
  have s: "py_strip (U ''Naver.'') = U ''Naver.''"
    by (rule strip_plain) (simp_all add: U_def isspace_def)
  have n: "normalize_engine_name (U ''Naver.'') = U ''naver''"
    by (simp add: normalize_engine_name_def py_lower_def rx_eval)
  show ?thesis
    by (simp add: choose_stage_def a dict_get_def s n Let_def ENGINES_def)
qed

lemma decide_base: "decide_chain env q = Inr (Some (U ''SEARCH'')) \<Longrightarrow> decide_stage env q = U ''SEARCH''"
proof -
  assume a: "decide_chain env q = Inr (Some (U ''SEARCH''))"
  have s: "py_strip (U ''SEARCH'') = U ''SEARCH''"
    by (rule strip_plain) (simp_all add: U_def isspace_def)
  show ?thesis
    by (simp add: decide_stage_def a dict_get_def s) (simp add: py_upper_def U_def ascii_upper_def)
qed

lemma refine_base: "refine_chain env q = Inr (RefineStr q) \<Longrightarrow> q = query_ieung \<Longrightarrow> refine_stage env q = q"
proof -
  assume a: "refine_chain env q = Inr (RefineStr q)" "q = query_ieung"
  have s: "py_strip [12615] = [12615]"
    by (simp add: py_strip_def isspace_def)
  show ?thesis using a
    by (simp add: refine_stage_def s Let_def query_ieung_def)
qed

lemma no_marker_empty:
  "\<not> list_ex (contains (U ''empty'')) SUMMARY_SKIP_MARKERS"
  "\<not> list_ex (contains (U ''empty'')) FACT_CHECK_FAIL_MARKERS"
  by (simp_all add: SUMMARY_SKIP_MARKERS_def FACT_CHECK_FAIL_MARKERS_def U_def startswith_def)

lemma run_agent_reads_memory:
  "run_pipeline env_agent_reads_memory query_ieung empty_state =
     (U ''empty'',
      \<lparr>memory = [(HumanMessage, query_ieung), (AIMessage, U ''empty'')],
       trace = [Invoke Decide, Invoke Refine, Invoke Choose, Invoke Agent, AddUser query_ieung,
                Invoke Summarize, Invoke FactCheck, AddAI (U ''empty'')]\<rparr>)"
proof -
  let ?env = env_agent_reads_memory
  have r: "components_ready ?env"
    by (simp add: components_ready_def env_agent_reads_memory_def base_env_def)
  have d: "decide_stage ?env query_ieung = U ''SEARCH''"
    by (rule decide_base) (simp add: env_agent_reads_memory_def base_env_def)
  have f: "refine_stage ?env query_ieung = query_ieung"
    by (rule refine_base) (simp_all add: env_agent_reads_memory_def base_env_def)
  have c: "choose_stage ?env query_ieung = U ''naver''"
    by (rule choose_base) (simp add: env_agent_reads_memory_def base_env_def)
  have s: "py_strip (U ''empty'') = U ''empty''"
    by (rule strip_plain) (simp_all add: U_def isspace_def)
  have n: "U ''empty'' \<noteq> []" by (simp add: U_def)
  have a: "agent ?env [] x = (Inr \<lparr>output_text = Some (U ''empty''), intermediate_steps = Some []\<rparr>, [])" for x
    by (simp add: env_agent_reads_memory_def base_env_def)
  have o: "agent_outcome (Inr \<lparr>output_text = Some (U ''empty''), intermediate_steps = Some []\<rparr>)
             = (U ''empty'', U ''empty'', [])"
    by (simp add: agent_outcome_def dict_get_def s n Let_def)
  have p: "parse_stage ?env (U ''empty'') = U ''empty''"
    by (simp add: parse_stage_def n Let_def)
       (simp add: env_agent_reads_memory_def base_env_def parse_empty_word n)
  have sm: "summary_stage ?env (U ''empty'') query_ieung st = (U ''empty'', invoke Summarize st)" for st
    by (simp add: summary_stage_def n no_marker_empty)
       (simp add: env_agent_reads_memory_def base_env_def dict_get_def s n)
  have fc: "fact_check_stage ?env (U ''empty'') (U ''empty'') st = (U ''empty'', invoke FactCheck st)" for st
    by (simp add: fact_check_stage_def)
       (simp add: env_agent_reads_memory_def base_env_def dict_get_def s n no_marker_empty)
  show ?thesis
    by (simp add: run_pipeline_def r ready_search d SEARCH_neq_NO_SEARCH Let_def search_path_def
          search_stages_def f c a o p sm fc attach_links_def
          empty_state_def invoke_def add_user_message_def add_ai_message_def)
qed

section \<open>Non-empty answers\<close>

lemma msgs_nonempty:
  "INIT_ERROR_MSG \<noteq> []" "NO_SEARCH_ERROR_MSG \<noteq> []" "FALLBACK_ERROR_MSG \<noteq> []"
  "NO_FINAL_ANSWER \<noteq> []" "NO_VALID_CONTENT_MSG \<noteq> []" "NOT_PARSABLE_MSG \<noteq> []"
  by (simp_all add: INIT_ERROR_MSG_def NO_SEARCH_ERROR_MSG_def FALLBACK_ERROR_MSG_def
        NO_FINAL_ANSWER_def NO_VALID_CONTENT_MSG_def NOT_PARSABLE_MSG_def)

lemma parse_content_nonempty: "fst (parse_agent_observation up arg) \<noteq> []"
  by (cases arg) (simp_all add: parse_agent_observation_def msgs_nonempty split_beta Let_def)

lemma parse_stage_nonempty: "parse_stage env final \<noteq> []"
  by (simp add: parse_stage_def Let_def msgs_nonempty)

lemma summary_stage_nonempty: "c \<noteq> [] \<Longrightarrow> fst (summary_stage env c r st) \<noteq> []"
  by (simp add: summary_stage_def Let_def split: sum.splits)

lemma fact_check_stage_nonempty: "s \<noteq> [] \<Longrightarrow> fst (fact_check_stage env s obs st) \<noteq> []"
  by (simp add: fact_check_stage_def Let_def split: sum.splits)

lemma attach_links_nonempty: "b \<noteq> [] \<Longrightarrow> attach_links b ls \<noteq> []"
  by (simp add: attach_links_def Let_def)

lemma search_stages_nonempty: "fst (search_stages env q st) \<noteq> []"
  by (simp add: search_stages_def Let_def split_beta fact_check_stage_nonempty
        summary_stage_nonempty parse_stage_nonempty)

lemma search_path_nonempty: "fst (search_path env q st) \<noteq> []"
  by (simp add: search_path_answer attach_links_nonempty search_stages_nonempty)

text \<open>An empty answer can only come from the direct-answer path.\<close>

lemma empty_answer_is_direct:
  assumes "fst (run_pipeline env q st) = []"
  shows "components_ready env \<and> decide_stage env q = U ''NO_SEARCH''"
proof -
  from assms have r: "components_ready env"
    by (auto simp: run_pipeline_def msgs_nonempty split: if_splits)
  with assms show ?thesis
    by (auto simp: run_pipeline_def Let_def ready_search search_path_nonempty split: if_splits)
qed

lemma run_blank_answer:
  "run_pipeline env_blank_answer query_ieung empty_state =
     ([], \<lparr>memory = [(HumanMessage, query_ieung), (AIMessage, [])],
           trace = [Invoke Decide, AddUser query_ieung, Invoke NoSearch, AddAI []]\<rparr>)"
proof -
  let ?env = env_blank_answer
  have r: "components_ready ?env"
    by (simp add: components_ready_def env_blank_answer_def base_env_def)
  have s: "py_strip (U ''no_search'') = U ''no_search''"
    by (rule strip_plain) (simp_all add: U_def isspace_def)
  have d: "decide_stage ?env query_ieung = U ''NO_SEARCH''"
    by (simp add: decide_stage_def env_blank_answer_def dict_get_def s)
       (simp add: py_upper_def U_def ascii_upper_def)
  have b: "py_strip (U ''  '') = []"
    by (simp add: py_strip_def U_def isspace_def)
  have n: "no_search_chain ?env query_ieung = Inr (Some (U ''  ''))"
    by (simp add: env_blank_answer_def)
  show ?thesis
    by (simp add: run_pipeline_def r d Let_def no_search_path_def n dict_get_def b
          empty_state_def invoke_def add_user_message_def add_ai_message_def)
qed

text \<open>
  C1 (what the code does at the failing input). The query is the single letter U+3147, the
  decision chain answers \<open>no_search\<close> and the direct-answer chain answers two blanks: the
  pipeline returns the empty string.
\<close>

theorem blank_direct_answer_is_returned:
  "fst (run_pipeline env_blank_answer query_ieung empty_state) = [] \<and> query_ieung \<noteq> []"
proof -
  have "fst (run_pipeline env_blank_answer query_ieung empty_state) = []"
    by (simp add: run_blank_answer)
  moreover have "query_ieung \<noteq> []"
    by (simp add: query_ieung_def)
  ultimately show ?thesis by simp
qed

section \<open>The order of the memory writes\<close>

text \<open>
  C9, as amended. On the search path the user message is appended only after the agent has
  returned, before the parsing, the summary and the fact check; the assistant message
  with the final answer is the last event of the turn, and the memory after the turn is
  the memory the agent left, then the two messages. It is on the direct-answer path that
  the user message is appended before the chain is invoked.
\<close>

theorem user_message_follows_agent:
  assumes "components_ready env"
  shows "(decide_stage env q \<noteq> U ''NO_SEARCH'' \<longrightarrow>
           (\<exists>mid. trace (snd (run_pipeline env q st))
                     = trace st @ [Invoke Decide, Invoke Refine, Invoke Choose, Invoke Agent, AddUser q]
                       @ mid @ [AddAI (fst (run_pipeline env q st))]
                 \<and> set mid \<subseteq> {Invoke Summarize, Invoke FactCheck}
                 \<and> memory (snd (run_pipeline env q st))
                     = snd (agent_call env q (invoke Decide st))
                       @ [(HumanMessage, q), (AIMessage, fst (run_pipeline env q st))]))
       \<and> (decide_stage env q = U ''NO_SEARCH'' \<longrightarrow>
           (\<exists>rest. trace (snd (run_pipeline env q st))
                      = trace st @ [Invoke Decide, AddUser q, Invoke NoSearch] @ rest))"
proof (intro conjI impI)
  assume d: "decide_stage env q \<noteq> U ''NO_SEARCH''"
  from assms d have e: "run_pipeline env q st = search_path env q (invoke Decide st)"
    by (simp add: run_pipeline_def Let_def ready_search)
  obtain mid where m:
    "trace (snd (snd (search_stages env q (invoke Decide st))))
       = trace (invoke Decide st) @ [Invoke Refine, Invoke Choose, Invoke Agent, AddUser q] @ mid"
    "set mid \<subseteq> {Invoke Summarize, Invoke FactCheck}"
    "memory (snd (snd (search_stages env q (invoke Decide st))))
       = snd (agent_call env q (invoke Decide st)) @ [(HumanMessage, q)]"
    using search_stages_state [of env q "invoke Decide st"] by blast
  have "trace (snd (search_path env q (invoke Decide st)))
          = trace st @ [Invoke Decide, Invoke Refine, Invoke Choose, Invoke Agent, AddUser q]
            @ mid @ [AddAI (fst (search_path env q (invoke Decide st)))]"
    using m(1) by (simp add: search_path_def Let_def split_beta)
  moreover have "memory (snd (search_path env q (invoke Decide st)))
          = snd (agent_call env q (invoke Decide st))
            @ [(HumanMessage, q), (AIMessage, fst (search_path env q (invoke Decide st)))]"
    using m(3) by (simp add: search_path_def Let_def split_beta)
  ultimately show "\<exists>mid. trace (snd (run_pipeline env q st))
                     = trace st @ [Invoke Decide, Invoke Refine, Invoke Choose, Invoke Agent, AddUser q]
                       @ mid @ [AddAI (fst (run_pipeline env q st))]
                 \<and> set mid \<subseteq> {Invoke Summarize, Invoke FactCheck}
                 \<and> memory (snd (run_pipeline env q st))
                     = snd (agent_call env q (invoke Decide st))
                       @ [(HumanMessage, q), (AIMessage, fst (run_pipeline env q st))]"
    using m(2) e by auto
next
  assume d: "decide_stage env q = U ''NO_SEARCH''"
  from assms d have e: "run_pipeline env q st = no_search_path env q (invoke Decide st)"
    by (simp add: run_pipeline_def Let_def)
  show "\<exists>rest. trace (snd (run_pipeline env q st))
                 = trace st @ [Invoke Decide, AddUser q, Invoke NoSearch] @ rest"
    by (simp add: e no_search_path_def Let_def split: sum.splits)
qed

lemma agent_reads_ready:
  "components_ready env_agent_reads_memory"
  "decide_stage env_agent_reads_memory query_ieung = U ''SEARCH''"
  by (simp add: components_ready_def env_agent_reads_memory_def base_env_def)
     (rule decide_base, simp add: env_agent_reads_memory_def base_env_def)

theorem user_message_follows_agent_witness:
  "components_ready env_agent_reads_memory
   \<and> decide_stage env_agent_reads_memory query_ieung \<noteq> U ''NO_SEARCH''
   \<and> (\<exists>mid. trace (snd (run_pipeline env_agent_reads_memory query_ieung empty_state))
               = [Invoke Decide, Invoke Refine, Invoke Choose, Invoke Agent, AddUser query_ieung]
                 @ mid @ [AddAI (fst (run_pipeline env_agent_reads_memory query_ieung empty_state))]
            \<and> set mid \<subseteq> {Invoke Summarize, Invoke FactCheck})"
proof -
  have d: "decide_stage env_agent_reads_memory query_ieung \<noteq> U ''NO_SEARCH''"
    by (simp add: agent_reads_ready SEARCH_neq_NO_SEARCH)
  from user_message_follows_agent [OF agent_reads_ready(1), of query_ieung empty_state] d
  show ?thesis
    by (auto simp: agent_reads_ready(1) empty_state_def)
qed

text \<open>
  C9 as stated fails: with an agent that reports whether the memory it is given is empty,
  the call for the query U+3147 on an empty memory invokes the refinement, the selection
  and the agent before it appends the user message, and the agent answers \<open>empty\<close>.
\<close>

theorem user_message_before_agent_counterexample:
  "trace (snd (run_pipeline env_agent_reads_memory query_ieung empty_state))
     = [Invoke Decide, Invoke Refine, Invoke Choose, Invoke Agent, AddUser query_ieung,
        Invoke Summarize, Invoke FactCheck, AddAI (U ''empty'')]
   \<and> fst (agent env_agent_reads_memory (memory empty_state) (U ''any''))
       = Inr \<lparr>output_text = Some (U ''empty''), intermediate_steps = Some []\<rparr>
   \<and> fst (run_pipeline env_agent_reads_memory query_ieung empty_state) = U ''empty''"
  by (simp add: run_agent_reads_memory) (simp add: env_agent_reads_memory_def base_env_def empty_state_def)

section \<open>Order-preserving deduplication\<close>

lemma foldl_append_new_set: "set (foldl append_new acc xs) = set acc \<union> set xs"
  by (induction xs arbitrary: acc) (auto simp: append_new_def)

lemma foldl_append_new_distinct: "distinct acc \<Longrightarrow> distinct (foldl append_new acc xs)"
  by (induction xs arbitrary: acc) (auto simp: append_new_def)

lemma fromkeys_set_distinct: "set (fromkeys xs) = set xs \<and> distinct (fromkeys xs)"
  by (simp add: fromkeys_def foldl_append_new_set foldl_append_new_distinct)

lemma foldl_append_new_id: "set xs \<subseteq> set acc \<Longrightarrow> foldl append_new acc xs = acc"
  by (induction xs arbitrary: acc) (auto simp: append_new_def)

lemma foldl_append_new_fresh:
  "distinct xs \<Longrightarrow> set xs \<inter> set acc = {} \<Longrightarrow> foldl append_new acc xs = acc @ xs"
  by (induction xs arbitrary: acc) (auto simp: append_new_def)

lemma fromkeys_distinct_id: "distinct xs \<Longrightarrow> fromkeys xs = xs"
  by (simp add: fromkeys_def foldl_append_new_fresh)

lemma fromkeys_AABA: "A \<noteq> B \<Longrightarrow> fromkeys [A, A, B, A] = [A, B]"
  by (simp add: fromkeys_def append_new_def)

lemma tool_links_ready:
  "components_ready env_tool_links"
  "decide_stage env_tool_links query_ieung = U ''SEARCH''"
  by (simp add: components_ready_def env_tool_links_def base_env_def)
     (rule decide_base, simp add: env_tool_links_def base_env_def)

lemma tool_links_outcome:
  "snd (snd (agent_outcome (fst (agent_call env_tool_links query_ieung st))))
     = [U ''http://a'', U ''http://a'', U ''http://b'', U ''http://a'']"
  by (simp add: agent_call_def env_tool_links_def base_env_def agent_outcome_def dict_get_def Let_def
        TOOL_NAMES_def split_beta)

section \<open>The sources block\<close>

lemma last_tool_observation_append:
  "last_tool_observation (xs @ ys)
     = (case last_tool_observation xs of None \<Rightarrow> last_tool_observation ys | Some p \<Rightarrow> Some p)"
  by (induction xs rule: last_tool_observation.induct) simp_all

lemma last_tool_observation_most_recent:
  "tool \<in> set TOOL_NAMES \<Longrightarrow> last_tool_observation (rev post) = None
     \<Longrightarrow> last_tool_observation (rev (pre @ Step tool (ObsPair obs ls) # post)) = Some (obs, ls)"
  by (simp add: last_tool_observation_append)

lemma agent_outcome_links:
  "snd (snd (agent_outcome res))
     = (case res of
          Inl e \<Rightarrow> []
        | Inr r \<Rightarrow> (case last_tool_observation (rev (dict_get (intermediate_steps r) [])) of
                      None \<Rightarrow> []
                    | Some (obs, ls) \<Rightarrow> ls))"
  by (simp add: agent_outcome_def Let_def split_beta split: sum.splits option.splits)

lemma attach_links_none: "attach_links body [] = body"
  by (simp add: attach_links_def)

lemma parse_url_in_answer:
  "parse_agent_observation urlparse_plain (PyStr (U ''see http://a.b'')) = (U ''see http://a.b'', [U ''http://a.b''])"
proof -
  have m: "re_findall no_flags markdown_link_regex (U ''see http://a.b'') = []"
    by (simp add: rx_eval)
  have p: "re_findall no_flags plain_link_regex (U ''see http://a.b'') = [U ''http://a.b'']"
    by (simp add: rx_eval)
  have l: "found_links_raw (U ''see http://a.b'') = [U ''http://a.b'']"
    by (simp add: found_links_raw_def m p fromkeys_def append_new_def)
  have st: "py_strip (U ''http://a.b'') = U ''http://a.b''"
    by (rule strip_plain) (simp_all add: U_def isspace_def)
  have j1: "re_sub_del no_flags trailing_junk_regex (U ''http://a.b'') = U ''http://a.b''"
    by (simp add: rx_eval)
  have j2: "re_sub_del no_flags simple_trailing_junk_regex (U ''http://a.b'') = U ''http://a.b''"
    by (simp add: rx_eval)
  have c: "clean_link (U ''http://a.b'') = U ''http://a.b''"
    by (simp add: clean_link_def st j1 j2)
  have u: "urlparse_plain (U ''http://a.b'') = Inr (U ''http'', U ''a.b'')"
    by (simp add: urlparse_plain_def U_def is_ascii_letter_def py_lower_def ascii_lower_def startswith_def Let_def)
  have n: "U ''http://a.b'' \<noteq> []" "U ''http'' \<noteq> []" "U ''a.b'' \<noteq> []" "U ''see http://a.b'' \<noteq> []"
    by (simp_all add: U_def)
  have cl: "clean_links urlparse_plain [U ''http://a.b''] [] = Inr [U ''http://a.b'']"
    by (simp add: c u n append_new_def)
  have s1: "re_search flags_SI source_section_regex (U ''see http://a.b'') = None"
    by (simp add: rx_eval)
  have s2: "re_match flags_I body_label_regex (U ''see http://a.b'') = None"
    by (simp add: rx_eval)
  have s3: "re_search flags_SI final_answer_regex (U ''see http://a.b'') = None"
    by (simp add: rx_eval)
  have e: "extract_content (U ''see http://a.b'') ls = U ''see http://a.b''" for ls
    by (simp add: extract_content_def s1 s2 s3)
  show ?thesis
    by (simp add: parse_agent_observation_def parse_body_def l cl e n del: clean_links.simps)
qed

lemma url_in_answer_ready:
  "components_ready env_url_in_answer"
  "decide_stage env_url_in_answer query_ieung = U ''SEARCH''"
  by (simp add: components_ready_def env_url_in_answer_def base_env_def)
     (rule decide_base, simp add: env_url_in_answer_def base_env_def)

lemma url_in_answer_body:
  "fst (search_stages env_url_in_answer query_ieung st) = U ''see http://a.b''"
proof -
  let ?env = env_url_in_answer
  let ?a = "U ''see http://a.b''"
  have s: "py_strip ?a = ?a"
    by (rule strip_plain) (simp_all add: U_def isspace_def)
  have n: "?a \<noteq> []" by (simp add: U_def)
  have a: "agent ?env m x = (Inr \<lparr>output_text = Some ?a, intermediate_steps = Some []\<rparr>, m)" for m x
    by (simp add: env_url_in_answer_def base_env_def)
  have o: "agent_outcome (Inr \<lparr>output_text = Some ?a, intermediate_steps = Some []\<rparr>) = (?a, ?a, [])"
    by (simp add: agent_outcome_def dict_get_def s n Let_def)
  have p: "parse_stage ?env ?a = ?a"
    by (simp add: parse_stage_def n Let_def)
       (simp add: env_url_in_answer_def base_env_def parse_url_in_answer n)
  have nm: "\<not> list_ex (contains ?a) SUMMARY_SKIP_MARKERS" "\<not> list_ex (contains ?a) FACT_CHECK_FAIL_MARKERS"
    by (simp_all add: SUMMARY_SKIP_MARKERS_def FACT_CHECK_FAIL_MARKERS_def U_def startswith_def)
  have sm: "summary_stage ?env ?a r st = (?a, invoke Summarize st)" for st r
    by (simp add: summary_stage_def n nm)
       (simp add: env_url_in_answer_def base_env_def dict_get_def s n)
  have fc: "fact_check_stage ?env ?a ?a st = (?a, invoke FactCheck st)" for st
    by (simp add: fact_check_stage_def)
       (simp add: env_url_in_answer_def base_env_def dict_get_def s n nm)
  show ?thesis
    by (simp add: search_stages_def Let_def a o p sm fc)
qed

section \<open>The retrieval tools\<close>

lemma item_cases:
  "extract_and_process_item eng pre it = (None, None)
   \<or> (\<exists>l t. link it = Some l \<and> l \<noteq> [] \<and> t \<noteq> []
         \<and> extract_and_process_item eng pre it = (Some t, Some l))"
  by (simp add: extract_and_process_item_def doc_header_def split: option.splits sum.splits)

lemma truthy_simps:
  "truthy [] = []"
  "truthy (None # xs) = truthy xs"
  "s \<noteq> [] \<Longrightarrow> truthy (Some s # xs) = s # truthy xs"
  by (simp_all add: truthy_def)

lemma gathered:
  "truthy (map (fst \<circ> extract_and_process_item eng pre) items)
     = map (\<lambda>it. the (fst (extract_and_process_item eng pre it)))
           (filter (\<lambda>it. fst (extract_and_process_item eng pre it) \<noteq> None) items)
   \<and> truthy (map (snd \<circ> extract_and_process_item eng pre) items)
     = map (\<lambda>it. the (link it))
           (filter (\<lambda>it. fst (extract_and_process_item eng pre it) \<noteq> None) items)"
proof (induction items)
  case Nil
  show ?case by (simp add: truthy_simps)
next
  case (Cons it items)
  from item_cases [of eng pre it] show ?case
  proof
    assume "extract_and_process_item eng pre it = (None, None)"
    with Cons show ?thesis by (simp add: truthy_simps)
  next
    assume "\<exists>l t. link it = Some l \<and> l \<noteq> [] \<and> t \<noteq> []
         \<and> extract_and_process_item eng pre it = (Some t, Some l)"
    then obtain l t where "link it = Some l" "l \<noteq> []" "t \<noteq> []"
      "extract_and_process_item eng pre it = (Some t, Some l)" by blast
    with Cons show ?thesis by (simp add: truthy_simps)
  qed
qed

lemma web_search_is_not_no_result: "startswith h WEB_SEARCH_PREFIX \<Longrightarrow> h \<noteq> NO_SEARCH_RESULT"
  by (auto simp: startswith_def WEB_SEARCH_PREFIX_def NO_SEARCH_RESULT_def U_def)

lemma format_none: "format_search_results [] ls = NO_CONTENT_MSG"
  by (simp add: format_search_results_def)

text \<open>
  C5. An item whose fetch, extraction or preprocessing raises or gives nothing yields
  \<open>(None, None)\<close>. Each adapter, once its search has returned items, answers with the
  formatted texts and the links of exactly the items that did not fail, in the order of the
  items; when none is left it answers with the fixed message and the empty link list, and
  when the search (or, for SerpAPI, the handling of its response) raises it answers with
  the error message and the empty link list.
\<close>

theorem adapters_drop_failed_items:
  fixes eng :: "(item list) engine" and serp :: "'r engine"
  assumes "ok = filter (\<lambda>it. fst (extract_and_process_item eng pre it) \<noteq> None) items"
    and "sok = filter (\<lambda>it. fst (extract_and_process_item serp pre it) \<noteq> None)
                 (organic_items (organic_results r))"
  shows "(link it = Some l
            \<and> (extract_text eng l = Inl e \<or> extract_text eng l = Inr []
                \<or> (\<exists>html. extract_text eng l = Inr html
                      \<and> (extract_main_text_from_html eng html = Inl e
                          \<or> (\<exists>t. extract_main_text_from_html eng html = Inr t
                                \<and> (pre t l = Inl e \<or> pre t l = Inr [])))))
          \<longrightarrow> extract_and_process_item eng pre it = (None, None))
       \<and> (search eng q = Inr items \<and> items \<noteq> [] \<longrightarrow>
            run_naver_async (Some eng) True pre q
              = (format_search_results (map (\<lambda>it. the (fst (extract_and_process_item eng pre it))) ok)
                   (map (\<lambda>it. the (link it)) ok),
                 map (\<lambda>it. the (link it)) ok)
          \<and> run_ces_async (Some eng) True pre q
              = (format_search_results (map (\<lambda>it. the (fst (extract_and_process_item eng pre it))) ok)
                   (map (\<lambda>it. the (link it)) ok),
                 map (\<lambda>it. the (link it)) ok))
       \<and> (search eng q = Inr items \<and> ok = [] \<longrightarrow>
            run_naver_async (Some eng) True pre q
              = (if items = [] then NAVER_NO_RESULT else NO_CONTENT_MSG, [])
          \<and> run_ces_async (Some eng) True pre q
              = (if items = [] then CES_NO_RESULT else NO_CONTENT_MSG, []))
       \<and> (search eng q = Inl e \<longrightarrow>
            run_naver_async (Some eng) True pre q = (NAVER_ERROR_PREFIX @ err_text e, [])
          \<and> run_ces_async (Some eng) True pre q = (CES_ERROR_PREFIX @ err_text e, []))
       \<and> (search serp q = Inr r \<and> handle_response r = Inr h \<and> startswith h WEB_SEARCH_PREFIX
            \<and> organic_items (organic_results r) \<noteq> [] \<longrightarrow>
            run_serpapi_async (Some serp) handle_response organic_results True pre q
              = (format_search_results (map (\<lambda>it. the (fst (extract_and_process_item serp pre it))) sok)
                   (map (\<lambda>it. the (link it)) sok),
                 map (\<lambda>it. the (link it)) sok))
       \<and> (search serp q = Inr r \<and> handle_response r = Inr h \<and> startswith h WEB_SEARCH_PREFIX
            \<and> sok = [] \<longrightarrow>
            run_serpapi_async (Some serp) handle_response organic_results True pre q
              = (if organic_items (organic_results r) = [] then NO_SEARCH_RESULT else NO_CONTENT_MSG, []))
       \<and> (search serp q = Inl e \<or> (search serp q = Inr r \<and> handle_response r = Inl e) \<longrightarrow>
            run_serpapi_async (Some serp) handle_response organic_results True pre q
              = (SERP_ERROR_PREFIX @ err_text e, []))"
proof -
  note g = gathered [of eng pre items, folded assms(1)]
  note gs = gathered [of serp pre "organic_items (organic_results r)", folded assms(2)]
  have n: "startswith h WEB_SEARCH_PREFIX \<Longrightarrow> h \<noteq> NO_SEARCH_RESULT"
    by (rule web_search_is_not_no_result)
  show ?thesis
  proof (intro conjI impI; (elim conjE)?)
    assume "link it = Some l"
       "extract_text eng l = Inl e \<or> extract_text eng l = Inr []
                \<or> (\<exists>html. extract_text eng l = Inr html
                      \<and> (extract_main_text_from_html eng html = Inl e
                          \<or> (\<exists>t. extract_main_text_from_html eng html = Inr t
                                \<and> (pre t l = Inl e \<or> pre t l = Inr []))))"
    then show "extract_and_process_item eng pre it = (None, None)"
      by (auto simp: extract_and_process_item_def)
  next
    assume "search eng q = Inr items" "items \<noteq> []"
    then show "run_naver_async (Some eng) True pre q
              = (format_search_results (map (\<lambda>it. the (fst (extract_and_process_item eng pre it))) ok)
                   (map (\<lambda>it. the (link it)) ok),
                 map (\<lambda>it. the (link it)) ok)"
      by (simp add: run_naver_async_def Let_def g)
  next
    assume "search eng q = Inr items" "items \<noteq> []"
    then show "run_ces_async (Some eng) True pre q
              = (format_search_results (map (\<lambda>it. the (fst (extract_and_process_item eng pre it))) ok)
                   (map (\<lambda>it. the (link it)) ok),
                 map (\<lambda>it. the (link it)) ok)"
      by (simp add: run_ces_async_def Let_def g)
  next
    assume "search eng q = Inr items" "ok = []"
    then show "run_naver_async (Some eng) True pre q
              = (if items = [] then NAVER_NO_RESULT else NO_CONTENT_MSG, [])"
      by (simp add: run_naver_async_def Let_def g format_none)
  next
    assume "search eng q = Inr items" "ok = []"
    then show "run_ces_async (Some eng) True pre q
              = (if items = [] then CES_NO_RESULT else NO_CONTENT_MSG, [])"
      by (simp add: run_ces_async_def Let_def g format_none)
  next
    assume "search eng q = Inl e"
    then show "run_naver_async (Some eng) True pre q = (NAVER_ERROR_PREFIX @ err_text e, [])"
      by (simp add: run_naver_async_def)
  next
    assume "search eng q = Inl e"
    then show "run_ces_async (Some eng) True pre q = (CES_ERROR_PREFIX @ err_text e, [])"
      by (simp add: run_ces_async_def)
  next
    assume "search serp q = Inr r" "handle_response r = Inr h" "startswith h WEB_SEARCH_PREFIX"
       "organic_items (organic_results r) \<noteq> []"
    then show "run_serpapi_async (Some serp) handle_response organic_results True pre q
              = (format_search_results (map (\<lambda>it. the (fst (extract_and_process_item serp pre it))) sok)
                   (map (\<lambda>it. the (link it)) sok),
                 map (\<lambda>it. the (link it)) sok)"
      by (simp add: run_serpapi_async_def Let_def gs n)
  next
    assume "search serp q = Inr r" "handle_response r = Inr h" "startswith h WEB_SEARCH_PREFIX" "sok = []"
    then show "run_serpapi_async (Some serp) handle_response organic_results True pre q
              = (if organic_items (organic_results r) = [] then NO_SEARCH_RESULT else NO_CONTENT_MSG, [])"
      by (simp add: run_serpapi_async_def Let_def gs format_none n)
  next
    assume "search serp q = Inl e \<or> (search serp q = Inr r \<and> handle_response r = Inl e)"
    then show "run_serpapi_async (Some serp) handle_response organic_results True pre q
              = (SERP_ERROR_PREFIX @ err_text e, [])"
      by (auto simp: run_serpapi_async_def)
  qed
qed

lemma demo_item_results:
  "extract_and_process_item demo_engine demo_preprocess \<lparr>title = Some (U ''A''), link = Some (U ''http://a'')\<rparr>
     = (Some (doc_header (U ''A'') @ U ''x''), Some (U ''http://a''))"
  "extract_and_process_item demo_engine demo_preprocess \<lparr>title = Some (U ''B''), link = Some (U ''http://b'')\<rparr>
     = (None, None)"
  "extract_and_process_item demo_engine demo_preprocess \<lparr>title = None, link = Some (U ''http://c'')\<rparr>
     = (Some (doc_header [] @ U ''x''), Some (U ''http://c''))"
  "extract_and_process_item demo_engine demo_preprocess \<lparr>title = Some [], link = Some (U ''http://c'')\<rparr>
     = (Some (doc_header [] @ U ''x''), Some (U ''http://c''))"
  by (simp_all add: extract_and_process_item_def demo_engine_def demo_preprocess_def dict_get_def U_def)

lemma demo_search:
  "search demo_engine (U ''q'') = Inr demo_items"
  "search demo_engine (U ''bad'') = Inr [\<lparr>title = Some (U ''B''), link = Some (U ''http://b'')\<rparr>]"
  "search demo_engine (U ''down'') = Inl (OtherError (U ''timeout''))"
  by (simp_all add: demo_engine_def U_def)

lemma demo_organic:
  "organic_items (Some demo_items)
     = [\<lparr>title = Some (U ''A''), link = Some (U ''http://a'')\<rparr>,
        \<lparr>title = Some (U ''B''), link = Some (U ''http://b'')\<rparr>,
        \<lparr>title = Some [], link = Some (U ''http://c'')\<rparr>]"
  by (simp add: organic_items_def demo_items_def truthy_def dict_get_def U_def)

lemma demo_formatted:
  "format_search_results [doc_header (U ''A'') @ U ''x'', doc_header [] @ U ''x''] [U ''http://a'', U ''http://c'']
     = BODY_HEADER @ doc_header (U ''A'') @ U ''x'' @ [10, 10] @ doc_header [] @ U ''x''
       @ SOURCES_HEADER @ source_line (U ''http://a'') @ [10] @ source_line (U ''http://c'')"
  by (simp add: format_search_results_def fromkeys_def append_new_def Let_def) (simp add: U_def)

theorem adapters_drop_failed_items_witness:
  "extract_and_process_item demo_engine demo_preprocess \<lparr>title = Some (U ''B''), link = Some (U ''http://b'')\<rparr>
     = (None, None)
   \<and> run_naver_async (Some demo_engine) True demo_preprocess (U ''q'')
       = (BODY_HEADER @ doc_header (U ''A'') @ U ''x'' @ [10, 10] @ doc_header [] @ U ''x''
            @ SOURCES_HEADER @ source_line (U ''http://a'') @ [10] @ source_line (U ''http://c''),
          [U ''http://a'', U ''http://c''])
   \<and> run_ces_async (Some demo_engine) True demo_preprocess (U ''q'')
       = (BODY_HEADER @ doc_header (U ''A'') @ U ''x'' @ [10, 10] @ doc_header [] @ U ''x''
            @ SOURCES_HEADER @ source_line (U ''http://a'') @ [10] @ source_line (U ''http://c''),
          [U ''http://a'', U ''http://c''])
   \<and> run_serpapi_async (Some demo_engine) demo_handle_response Some True demo_preprocess (U ''q'')
       = (BODY_HEADER @ doc_header (U ''A'') @ U ''x'' @ [10, 10] @ doc_header [] @ U ''x''
            @ SOURCES_HEADER @ source_line (U ''http://a'') @ [10] @ source_line (U ''http://c''),
          [U ''http://a'', U ''http://c''])
   \<and> run_naver_async (Some demo_engine) True demo_preprocess (U ''bad'') = (NO_CONTENT_MSG, [])
   \<and> run_ces_async (Some demo_engine) True demo_preprocess (U ''bad'') = (NO_CONTENT_MSG, [])
   \<and> run_naver_async (Some demo_engine) True demo_preprocess (U ''down'')
       = (NAVER_ERROR_PREFIX @ U ''timeout'', [])
   \<and> run_ces_async (Some demo_engine) True demo_preprocess (U ''down'')
       = (CES_ERROR_PREFIX @ U ''timeout'', [])
   \<and> run_serpapi_async (Some demo_engine) demo_handle_response Some True demo_preprocess (U ''down'')
       = (SERP_ERROR_PREFIX @ U ''timeout'', [])"
proof -
  let ?B = "\<lparr>title = Some (U ''B''), link = Some (U ''http://b'')\<rparr>"
  let ?h = "WEB_SEARCH_PREFIX @ U '' 3''"
  have x: "extract_text demo_engine (U ''http://b'') = Inl (OtherError (U ''404''))"
    by (simp add: demo_engine_def)
  have w: "startswith ?h WEB_SEARCH_PREFIX" by (simp add: startswith_def)
  have hr: "demo_handle_response r = Inr ?h" for r by (simp add: demo_handle_response_def)
  have ne: "demo_items \<noteq> []" by (simp add: demo_items_def)
  have 1: "extract_and_process_item demo_engine demo_preprocess ?B = (None, None)"
    using adapters_drop_failed_items
      [where eng = demo_engine and pre = demo_preprocess and items = "[]" and it = ?B
         and l = "U ''http://b''" and e = "OtherError (U ''404'')" and serp = demo_engine
         and organic_results = Some and r = "[]", OF refl refl] x
    by simp
  have 2: "run_naver_async (Some demo_engine) True demo_preprocess (U ''q'')
       = (BODY_HEADER @ doc_header (U ''A'') @ U ''x'' @ [10, 10] @ doc_header [] @ U ''x''
            @ SOURCES_HEADER @ source_line (U ''http://a'') @ [10] @ source_line (U ''http://c''),
          [U ''http://a'', U ''http://c''])
     \<and> run_ces_async (Some demo_engine) True demo_preprocess (U ''q'')
       = (BODY_HEADER @ doc_header (U ''A'') @ U ''x'' @ [10, 10] @ doc_header [] @ U ''x''
            @ SOURCES_HEADER @ source_line (U ''http://a'') @ [10] @ source_line (U ''http://c''),
          [U ''http://a'', U ''http://c''])
     \<and> run_serpapi_async (Some demo_engine) demo_handle_response Some True demo_preprocess (U ''q'')
       = (BODY_HEADER @ doc_header (U ''A'') @ U ''x'' @ [10, 10] @ doc_header [] @ U ''x''
            @ SOURCES_HEADER @ source_line (U ''http://a'') @ [10] @ source_line (U ''http://c''),
          [U ''http://a'', U ''http://c''])"
    using adapters_drop_failed_items
      [where eng = demo_engine and pre = demo_preprocess and items = demo_items and q = "U ''q''"
         and serp = demo_engine and organic_results = Some and r = demo_items
         and handle_response = demo_handle_response and h = ?h, OF refl refl]
      demo_search(1) ne w hr
    by (simp add: demo_organic) (simp add: demo_items_def demo_item_results demo_formatted)
  have 3: "run_naver_async (Some demo_engine) True demo_preprocess (U ''bad'') = (NO_CONTENT_MSG, [])
     \<and> run_ces_async (Some demo_engine) True demo_preprocess (U ''bad'') = (NO_CONTENT_MSG, [])"
    using adapters_drop_failed_items
      [where eng = demo_engine and pre = demo_preprocess and items = "[?B]" and q = "U ''bad''"
         and serp = demo_engine and organic_results = Some and r = "[]", OF refl refl]
      demo_search(2)
    by (simp add: demo_item_results format_none)
  have 4: "run_naver_async (Some demo_engine) True demo_preprocess (U ''down'')
       = (NAVER_ERROR_PREFIX @ U ''timeout'', [])
     \<and> run_ces_async (Some demo_engine) True demo_preprocess (U ''down'')
       = (CES_ERROR_PREFIX @ U ''timeout'', [])
     \<and> run_serpapi_async (Some demo_engine) demo_handle_response Some True demo_preprocess (U ''down'')
       = (SERP_ERROR_PREFIX @ U ''timeout'', [])"
    using adapters_drop_failed_items
      [where eng = demo_engine and pre = demo_preprocess and items = "[]" and q = "U ''down''"
         and e = "OtherError (U ''timeout'')"
         and serp = demo_engine and organic_results = Some and r = "[]"
         and handle_response = demo_handle_response, OF refl refl]
      demo_search(3)
    by simp
  from 1 2 3 4 show ?thesis by simp
qed

section \<open>The parser\<close>

lemma parse_body_empty_word:
  "parse_body urlparse_plain (U ''empty'') = Inr (U ''empty'', [])"
proof -
  have l: "found_links_raw (U ''empty'') = []"
    by (simp add: found_links_raw_def fromkeys_def rx_eval)
  have s1: "re_search flags_SI source_section_regex (U ''empty'') = None"
    by (simp add: rx_eval)
  have s2: "re_match flags_I body_label_regex (U ''empty'') = None"
    by (simp add: rx_eval)
  have s3: "re_search flags_SI final_answer_regex (U ''empty'') = None"
    by (simp add: rx_eval)
  have c: "extract_content (U ''empty'') [] = U ''empty''"
    by (simp add: extract_content_def s1 s2 s3)
  show ?thesis
    by (simp add: parse_body_def l c)
qed

lemma parse_body_broken:
  "parse_body urlparse_broken (U ''http://a'') = Inl (OtherError (U ''boom''))"
proof -
  have m: "re_findall no_flags markdown_link_regex (U ''http://a'') = []"
    by (simp add: rx_eval)
  have p: "re_findall no_flags plain_link_regex (U ''http://a'') = [U ''http://a'']"
    by (simp add: rx_eval)
  have l: "found_links_raw (U ''http://a'') = [U ''http://a'']"
    by (simp add: found_links_raw_def m p fromkeys_def append_new_def)
  have n: "U ''http://a'' \<noteq> []" by (simp add: U_def)
  show ?thesis
    by (simp add: parse_body_def l n urlparse_broken_def)
qed

text \<open>
  C4. \<open>parse_agent_observation\<close> is total: for every argument it returns a pair whose first
  component is a non-empty string. When the \<open>try\<close> block is left by an exception the pair
  is the stripped input and the empty list; when it completes the pair is its content and
  its links; in both cases empty content is replaced by the fixed placeholder. The empty
  string gives the placeholder and no link, and an argument that is not a string gives the
  fixed message and no link.
\<close>

theorem parse_agent_observation_total:
  "fst (parse_agent_observation up arg) \<noteq> []
   \<and> (parse_body up s = Inl e \<longrightarrow>
        parse_agent_observation up (PyStr s)
          = (if py_strip s = [] then NO_VALID_CONTENT_MSG else py_strip s, []))
   \<and> (parse_body up s = Inr (c, ls) \<longrightarrow>
        parse_agent_observation up (PyStr s) = (if c = [] then NO_VALID_CONTENT_MSG else c, ls))
   \<and> parse_agent_observation up (PyStr []) = (NO_VALID_CONTENT_MSG, [])
   \<and> parse_agent_observation up PyOther = (NOT_PARSABLE_MSG, [])"
proof (intro conjI impI)
  show "fst (parse_agent_observation up arg) \<noteq> []"
    by (rule parse_content_nonempty)
next
  assume "parse_body up s = Inl e"
  then show "parse_agent_observation up (PyStr s)
          = (if py_strip s = [] then NO_VALID_CONTENT_MSG else py_strip s, [])"
    by (simp add: parse_agent_observation_def)
next
  assume "parse_body up s = Inr (c, ls)"
  then show "parse_agent_observation up (PyStr s) = (if c = [] then NO_VALID_CONTENT_MSG else c, ls)"
    by (simp add: parse_agent_observation_def)
next
  have l: "found_links_raw [] = []"
    by (simp add: found_links_raw_def fromkeys_def rx_eval)
  have s1: "re_search flags_SI source_section_regex [] = None"
    by (simp add: rx_eval)
  have s2: "re_match flags_I body_label_regex [] = None"
    by (simp add: rx_eval)
  have s3: "re_search flags_SI final_answer_regex [] = None"
    by (simp add: rx_eval)
  have c: "extract_content [] [] = []"
    by (simp add: extract_content_def s1 s2 s3)
  show "parse_agent_observation up (PyStr []) = (NO_VALID_CONTENT_MSG, [])"
    by (simp add: parse_agent_observation_def parse_body_def l c)
next
  show "parse_agent_observation up PyOther = (NOT_PARSABLE_MSG, [])"
    by (simp add: parse_agent_observation_def)
qed

theorem parse_agent_observation_total_witness:
  "parse_agent_observation urlparse_broken (PyStr (U ''http://a'')) = (U ''http://a'', [])
   \<and> parse_agent_observation urlparse_plain (PyStr (U ''empty'')) = (U ''empty'', [])"
proof -
  have s: "py_strip (U ''http://a'') = U ''http://a''"
    by (rule strip_plain) (simp_all add: U_def isspace_def)
  have n: "U ''http://a'' \<noteq> []" "U ''empty'' \<noteq> []" by (simp_all add: U_def)
  from parse_agent_observation_total [of urlparse_broken "PyOther" "U ''http://a''" "OtherError (U ''boom'')" "[]" "[]"]
    parse_body_broken
  have 1: "parse_agent_observation urlparse_broken (PyStr (U ''http://a'')) = (U ''http://a'', [])"
    by (simp add: s n)
  from parse_agent_observation_total [of urlparse_plain "PyOther" "U ''empty''" "OtherError []" "U ''empty''" "[]"]
    parse_body_empty_word
  have 2: "parse_agent_observation urlparse_plain (PyStr (U ''empty'')) = (U ''empty'', [])"
    by (simp add: n)
  from 1 2 show ?thesis by simp
qed

section \<open>The decision is trimmed and upper-cased\<close>

lemma dropWhile_all: "list_all P a \<Longrightarrow> dropWhile P (a @ ys) = dropWhile P ys"
  by (induction a) auto

lemma py_strip_pad:
  assumes "list_all isspace a" "list_all isspace b" "t = [] \<or> (\<not> isspace (hd t) \<and> \<not> isspace (last t))"
  shows "py_strip (a @ t @ b) = t"
proof (cases "t = []")
  case True
  have "dropWhile isspace (a @ b) = dropWhile isspace b"
    using assms(1) by (rule dropWhile_all)
  also have "\<dots> = []"
    using dropWhile_all [OF assms(2), of "[]"] by simp
  finally show ?thesis
    using True by (simp add: py_strip_def del: dropWhile_eq_Nil_conv)
next
  case False
  with assms(3) have h: "\<not> isspace (hd t)" and l: "\<not> isspace (last t)" by simp_all
  from False h have 1: "dropWhile isspace (t @ b) = t @ b" by (cases t) auto
  from assms(2) have rb: "list_all isspace (rev b)" by (simp add: list_all_iff)
  from False l have "dropWhile isspace (rev t) = rev t" by (cases "rev t") (auto simp: hd_rev)
  with rb have 2: "dropWhile isspace (rev b @ rev t) = rev t" by (simp add: dropWhile_all)
  from assms(1) show ?thesis by (simp add: py_strip_def dropWhile_all 1 2)
qed

lemma py_upper_ascii: "\<forall>c\<in>set t. c < 128 \<Longrightarrow> py_upper tab t = map ascii_upper t"
  by (induction t) (simp_all add: py_upper_def)

text \<open>
  C2. The output of the decision chain is trimmed and upper-cased before it is compared: an
  ASCII output that consists of a text \<open>t\<close> between two runs of whitespace gives the decision
  \<open>t\<close> in upper case. The pipeline takes the direct-answer path when the decision is
  \<open>NO_SEARCH\<close> and the search path for every other decision; and when the decision chain
  raises, or its result has no decision, the decision is \<open>SEARCH\<close> and the pipeline goes on
  with the search path.
\<close>

theorem decision_is_normalized:
  assumes "components_ready env"
  shows "(decide_chain env q = Inr (Some (a @ t @ b)) \<and> list_all isspace a \<and> list_all isspace b
            \<and> (t = [] \<or> (\<not> isspace (hd t) \<and> \<not> isspace (last t))) \<and> (\<forall>c\<in>set t. c < 128)
          \<longrightarrow> decide_stage env q = map ascii_upper t)
       \<and> (decide_stage env q = U ''NO_SEARCH''
          \<longrightarrow> run_pipeline env q st = no_search_path env q (invoke Decide st))
       \<and> (decide_stage env q \<noteq> U ''NO_SEARCH''
          \<longrightarrow> run_pipeline env q st = search_path env q (invoke Decide st))
       \<and> (decide_chain env q = Inl e \<or> decide_chain env q = Inr None
          \<longrightarrow> decide_stage env q = U ''SEARCH''
              \<and> run_pipeline env q st = search_path env q (invoke Decide st))"
proof (intro conjI impI; (elim conjE)?)
  assume c: "decide_chain env q = Inr (Some (a @ t @ b))"
    and w: "list_all isspace a" "list_all isspace b" "t = [] \<or> (\<not> isspace (hd t) \<and> \<not> isspace (last t))"
    and u: "\<forall>c\<in>set t. c < 128"
  from w have "py_strip (a @ t @ b) = t" by (rule py_strip_pad)
  with c u show "decide_stage env q = map ascii_upper t"
    by (simp add: decide_stage_def dict_get_def py_upper_ascii)
next
  assume "decide_stage env q = U ''NO_SEARCH''"
  with assms show "run_pipeline env q st = no_search_path env q (invoke Decide st)"
    by (simp add: run_pipeline_def Let_def)
next
  assume "decide_stage env q \<noteq> U ''NO_SEARCH''"
  with assms show "run_pipeline env q st = search_path env q (invoke Decide st)"
    by (simp add: run_pipeline_def Let_def ready_search)
next
  assume "decide_chain env q = Inl e \<or> decide_chain env q = Inr None"
  then have s: "decide_stage env q = U ''SEARCH''"
  proof
    assume "decide_chain env q = Inl e"
    then show ?thesis by (simp add: decide_stage_def)
  next
    have "py_strip ([] @ U ''SEARCH'' @ []) = U ''SEARCH''"
      by (rule py_strip_pad) (simp_all add: U_def isspace_def)
    moreover have "py_upper tab (U ''SEARCH'') = U ''SEARCH''" for tab
      by (simp add: py_upper_def U_def ascii_upper_def)
    moreover assume "decide_chain env q = Inr None"
    ultimately show ?thesis by (simp add: decide_stage_def dict_get_def)
  qed
  then show "decide_stage env q = U ''SEARCH''" .
  from s assms show "run_pipeline env q st = search_path env q (invoke Decide st)"
    by (simp add: run_pipeline_def Let_def ready_search SEARCH_neq_NO_SEARCH)
qed

lemma padded_ready:
  "components_ready env_decide_padded" "components_ready env_decide_lower"
  "components_ready env_decide_raises"
  by (simp_all add: components_ready_def env_decide_padded_def env_decide_lower_def
        env_decide_raises_def base_env_def)

lemma padded_direct_answer:
  "fst (no_search_path env_decide_padded query_ieung st) = U ''hi''"
proof -
  have "py_strip ([] @ U ''hi'' @ []) = U ''hi''"
    by (rule py_strip_pad) (simp_all add: U_def isspace_def)
  then show ?thesis
    by (simp add: no_search_path_def env_decide_padded_def base_env_def dict_get_def Let_def)
       (simp add: U_def)
qed

theorem decision_is_normalized_witness:
  "decide_stage env_decide_padded query_ieung = U ''NO_SEARCH''
   \<and> fst (run_pipeline env_decide_padded query_ieung empty_state) = U ''hi''
   \<and> decide_stage env_decide_lower query_ieung = U ''SEARCH''
   \<and> run_pipeline env_decide_lower query_ieung empty_state
       = search_path env_decide_lower query_ieung (invoke Decide empty_state)
   \<and> decide_stage env_decide_raises query_ieung = U ''SEARCH''
   \<and> run_pipeline env_decide_raises query_ieung empty_state
       = search_path env_decide_raises query_ieung (invoke Decide empty_state)"
proof -
  have c1: "decide_chain env_decide_padded query_ieung = Inr (Some (U ''  '' @ U ''no_Search'' @ (U '' '' @ [10])))"
    by (simp add: env_decide_padded_def U_def)
  have w1: "list_all isspace (U ''  '')" "list_all isspace (U '' '' @ [10])"
    "U ''no_Search'' = [] \<or> (\<not> isspace (hd (U ''no_Search'')) \<and> \<not> isspace (last (U ''no_Search'')))"
    "\<forall>c\<in>set (U ''no_Search''). c < 128"
    by (simp_all add: U_def isspace_def)
  have u1: "map ascii_upper (U ''no_Search'') = U ''NO_SEARCH''"
    by (simp add: U_def ascii_upper_def)
  note t1 = decision_is_normalized [OF padded_ready(1), of query_ieung "U ''  ''" "U ''no_Search''"
      "U '' '' @ [10]" empty_state "OtherError []"]
  from t1 c1 w1 u1 have d1: "decide_stage env_decide_padded query_ieung = U ''NO_SEARCH''"
    by simp
  with t1 have r1: "run_pipeline env_decide_padded query_ieung empty_state
      = no_search_path env_decide_padded query_ieung (invoke Decide empty_state)"
    by simp
  have c2: "decide_chain env_decide_lower query_ieung = Inr (Some ([] @ U ''search'' @ U '' ''))"
    by (simp add: env_decide_lower_def U_def)
  have w2: "list_all isspace []" "list_all isspace (U '' '')"
    "U ''search'' = [] \<or> (\<not> isspace (hd (U ''search'')) \<and> \<not> isspace (last (U ''search'')))"
    "\<forall>c\<in>set (U ''search''). c < 128"
    by (simp_all add: U_def isspace_def)
  have u2: "map ascii_upper (U ''search'') = U ''SEARCH''"
    by (simp add: U_def ascii_upper_def)
  note t2 = decision_is_normalized [OF padded_ready(2), of query_ieung "[]" "U ''search''"
      "U '' ''" empty_state "OtherError []"]
  from t2 c2 w2 u2 have d2: "decide_stage env_decide_lower query_ieung = U ''SEARCH''"
    by simp
  with t2 have r2: "run_pipeline env_decide_lower query_ieung empty_state
      = search_path env_decide_lower query_ieung (invoke Decide empty_state)"
    by (simp add: SEARCH_neq_NO_SEARCH)
  have c3: "decide_chain env_decide_raises query_ieung = Inl (OtherError (U ''timeout''))"
    by (simp add: env_decide_raises_def)
  note t3 = decision_is_normalized [OF padded_ready(3), of query_ieung "[]" "[]" "[]" empty_state
      "OtherError (U ''timeout'')"]
  from t3 c3 have d3: "decide_stage env_decide_raises query_ieung = U ''SEARCH''
    \<and> run_pipeline env_decide_raises query_ieung empty_state
       = search_path env_decide_raises query_ieung (invoke Decide empty_state)"
    by simp
  from d1 r1 d2 r2 d3 show ?thesis by (simp add: padded_direct_answer)
qed

section \<open>The links of an adapter and its observation\<close>

lemma texts_of_links:
  "truthy (map (snd \<circ> extract_and_process_item eng pre) items) \<noteq> []
     \<Longrightarrow> truthy (map (fst \<circ> extract_and_process_item eng pre) items) \<noteq> []"
  using gathered [of eng pre items] by simp

lemma format_AABA:
  assumes "texts \<noteq> []" "A \<noteq> []" "B \<noteq> []" "A \<noteq> B"
  shows "format_search_results texts [A, A, B, A]
           = BODY_HEADER @ py_join [10, 10] texts @ SOURCES_HEADER @ source_line A @ [10] @ source_line B"
proof -
  from assms have f: "fromkeys (filter (\<lambda>l. l \<noteq> []) [A, A, B, A]) = [A, B]"
    by (simp add: fromkeys_AABA)
  show ?thesis
    using assms(1) by (simp only: format_search_results_def Let_def f) simp
qed

lemma attach_AABA:
  assumes "A \<noteq> []" "B \<noteq> []" "A \<noteq> B"
  shows "attach_links body [A, A, B, A] = body @ SOURCES_HEADER @ source_line A @ [10] @ source_line B"
proof -
  from assms have f: "fromkeys (filter (\<lambda>l. l \<noteq> []) [A, A, B, A]) = [A, B]"
    by (simp add: fromkeys_AABA)
  show ?thesis
    by (simp only: attach_links_def Let_def f) simp
qed

lemma adapter_observation:
  fixes naver ces :: "(item list) engine option" and serp :: "'r engine option"
  assumes "ls \<noteq> []"
  shows "snd (run_naver_async naver hl pre q) = ls
           \<Longrightarrow> \<exists>texts. texts \<noteq> [] \<and> fst (run_naver_async naver hl pre q) = format_search_results texts ls"
    and "snd (run_ces_async ces hl pre q) = ls
           \<Longrightarrow> \<exists>texts. texts \<noteq> [] \<and> fst (run_ces_async ces hl pre q) = format_search_results texts ls"
    and "snd (run_serpapi_async serp handle_response organic_results hl pre q) = ls
           \<Longrightarrow> \<exists>texts. texts \<noteq> []
                 \<and> fst (run_serpapi_async serp handle_response organic_results hl pre q)
                     = format_search_results texts ls"
proof -
  have t: "\<exists>texts. texts \<noteq> []
             \<and> format_search_results (truthy (map (fst \<circ> extract_and_process_item eng pre) items))
                   (truthy (map (snd \<circ> extract_and_process_item eng pre) items))
                 = format_search_results texts (truthy (map (snd \<circ> extract_and_process_item eng pre) items))"
    if "truthy (map (snd \<circ> extract_and_process_item eng pre) items) \<noteq> []"
    for eng :: "'e engine" and items
    using texts_of_links [of eng pre items] that by blast
  show "snd (run_naver_async naver hl pre q) = ls
           \<Longrightarrow> \<exists>texts. texts \<noteq> [] \<and> fst (run_naver_async naver hl pre q) = format_search_results texts ls"
    using assms
    by (auto simp: run_naver_async_def Let_def split: option.splits sum.splits if_splits intro!: t)
  show "snd (run_ces_async ces hl pre q) = ls
           \<Longrightarrow> \<exists>texts. texts \<noteq> [] \<and> fst (run_ces_async ces hl pre q) = format_search_results texts ls"
    using assms
    by (auto simp: run_ces_async_def Let_def split: option.splits sum.splits if_splits intro!: t)
  show "snd (run_serpapi_async serp handle_response organic_results hl pre q) = ls
           \<Longrightarrow> \<exists>texts. texts \<noteq> []
                 \<and> fst (run_serpapi_async serp handle_response organic_results hl pre q)
                     = format_search_results texts ls"
    using assms
    by (auto simp: run_serpapi_async_def Let_def split: option.splits sum.splits if_splits intro!: t)
qed

text \<open>
  C6. Source-link deduplication keeps the first occurrences in order. When an adapter returns
  the link list \<open>[A, A, B, A]\<close> (\<open>A\<close> and \<open>B\<close> two non-empty strings), the observation that
  \<open>format_search_results\<close> built for it is the body followed by the sources block with the
  line of \<open>A\<close> and then the line of \<open>B\<close>, each once; and the final answer of the search path
  ends in the same block when the last retrieval step returned that link list.
\<close>

theorem dedup_keeps_first_seen_order:
  fixes naver ces :: "(item list) engine option" and serp :: "'r engine option"
  assumes "A \<noteq> []" "B \<noteq> []" "A \<noteq> B"
  shows "(snd (run_naver_async naver hl pre q) = [A, A, B, A] \<longrightarrow>
            (\<exists>texts. texts \<noteq> []
               \<and> fst (run_naver_async naver hl pre q)
                   = BODY_HEADER @ py_join [10, 10] texts
                     @ SOURCES_HEADER @ source_line A @ [10] @ source_line B))
       \<and> (snd (run_ces_async ces hl pre q) = [A, A, B, A] \<longrightarrow>
            (\<exists>texts. texts \<noteq> []
               \<and> fst (run_ces_async ces hl pre q)
                   = BODY_HEADER @ py_join [10, 10] texts
                     @ SOURCES_HEADER @ source_line A @ [10] @ source_line B))
       \<and> (snd (run_serpapi_async serp handle_response organic_results hl pre q) = [A, A, B, A] \<longrightarrow>
            (\<exists>texts. texts \<noteq> []
               \<and> fst (run_serpapi_async serp handle_response organic_results hl pre q)
                   = BODY_HEADER @ py_join [10, 10] texts
                     @ SOURCES_HEADER @ source_line A @ [10] @ source_line B))
       \<and> attach_links body [A, A, B, A] = body @ SOURCES_HEADER @ source_line A @ [10] @ source_line B
       \<and> (components_ready env \<and> decide_stage env query \<noteq> U ''NO_SEARCH''
            \<and> snd (snd (agent_outcome (fst (agent_call env query (invoke Decide st))))) = [A, A, B, A]
          \<longrightarrow> fst (run_pipeline env query st)
                = fst (search_stages env query (invoke Decide st))
                  @ SOURCES_HEADER @ source_line A @ [10] @ source_line B)"
proof (intro conjI impI; (elim conjE)?)
  assume "snd (run_naver_async naver hl pre q) = [A, A, B, A]"
  from adapter_observation(1) [OF _ this] obtain texts where
    "texts \<noteq> []" "fst (run_naver_async naver hl pre q) = format_search_results texts [A, A, B, A]"
    by auto
  with assms show "\<exists>texts. texts \<noteq> []
               \<and> fst (run_naver_async naver hl pre q)
                   = BODY_HEADER @ py_join [10, 10] texts
                     @ SOURCES_HEADER @ source_line A @ [10] @ source_line B"
    by (auto simp: format_AABA)
next
  assume "snd (run_ces_async ces hl pre q) = [A, A, B, A]"
  from adapter_observation(2) [OF _ this] obtain texts where
    "texts \<noteq> []" "fst (run_ces_async ces hl pre q) = format_search_results texts [A, A, B, A]"
    by auto
  with assms show "\<exists>texts. texts \<noteq> []
               \<and> fst (run_ces_async ces hl pre q)
                   = BODY_HEADER @ py_join [10, 10] texts
                     @ SOURCES_HEADER @ source_line A @ [10] @ source_line B"
    by (auto simp: format_AABA)
next
  assume "snd (run_serpapi_async serp handle_response organic_results hl pre q) = [A, A, B, A]"
  from adapter_observation(3) [OF _ this] obtain texts where
    "texts \<noteq> []"
    "fst (run_serpapi_async serp handle_response organic_results hl pre q)
       = format_search_results texts [A, A, B, A]"
    by auto
  with assms show "\<exists>texts. texts \<noteq> []
               \<and> fst (run_serpapi_async serp handle_response organic_results hl pre q)
                   = BODY_HEADER @ py_join [10, 10] texts
                     @ SOURCES_HEADER @ source_line A @ [10] @ source_line B"
    by (auto simp: format_AABA)
next
  from assms show "attach_links body [A, A, B, A]
      = body @ SOURCES_HEADER @ source_line A @ [10] @ source_line B"
    by (rule attach_AABA)
next
  assume "components_ready env" "decide_stage env query \<noteq> U ''NO_SEARCH''"
    "snd (snd (agent_outcome (fst (agent_call env query (invoke Decide st))))) = [A, A, B, A]"
  then show "fst (run_pipeline env query st)
                = fst (search_stages env query (invoke Decide st))
                  @ SOURCES_HEADER @ source_line A @ [10] @ source_line B"
    by (simp add: run_pipeline_def Let_def ready_search search_path_answer search_stages_links
          attach_AABA [OF assms])
qed

lemma dup_links:
  "snd (run_naver_async (Some dup_engine) True demo_preprocess (U ''q''))
     = [U ''http://a'', U ''http://a'', U ''http://b'', U ''http://a'']"
  "snd (run_ces_async (Some dup_engine) True demo_preprocess (U ''q''))
     = [U ''http://a'', U ''http://a'', U ''http://b'', U ''http://a'']"
  "snd (run_serpapi_async (Some dup_engine) demo_handle_response Some True demo_preprocess (U ''q''))
     = [U ''http://a'', U ''http://a'', U ''http://b'', U ''http://a'']"
proof -
  have e: "extract_and_process_item dup_engine demo_preprocess \<lparr>title = t, link = Some (U ''http://a'')\<rparr>
             = (Some (doc_header (dict_get t []) @ U ''x''), Some (U ''http://a''))"
          "extract_and_process_item dup_engine demo_preprocess \<lparr>title = t, link = Some (U ''http://b'')\<rparr>
             = (Some (doc_header (dict_get t []) @ U ''x''), Some (U ''http://b''))" for t
    by (simp_all add: extract_and_process_item_def dup_engine_def demo_preprocess_def U_def)
  have n: "U ''http://a'' \<noteq> []" "U ''http://b'' \<noteq> []" by (simp_all add: U_def)
  have s: "search dup_engine (U ''q'')
      = Inr [\<lparr>title = Some (U ''1''), link = Some (U ''http://a'')\<rparr>,
             \<lparr>title = Some (U ''2''), link = Some (U ''http://a'')\<rparr>,
             \<lparr>title = Some (U ''3''), link = Some (U ''http://b'')\<rparr>,
             \<lparr>title = Some (U ''4''), link = Some (U ''http://a'')\<rparr>]"
    by (simp add: dup_engine_def)
  have w: "startswith (WEB_SEARCH_PREFIX @ U '' 3'') WEB_SEARCH_PREFIX" by (simp add: startswith_def)
  have x: "WEB_SEARCH_PREFIX @ U '' 3'' \<noteq> NO_SEARCH_RESULT"
    using w by (rule web_search_is_not_no_result)
  show "snd (run_naver_async (Some dup_engine) True demo_preprocess (U ''q''))
     = [U ''http://a'', U ''http://a'', U ''http://b'', U ''http://a'']"
    by (simp add: run_naver_async_def s Let_def e truthy_simps n)
  show "snd (run_ces_async (Some dup_engine) True demo_preprocess (U ''q''))
     = [U ''http://a'', U ''http://a'', U ''http://b'', U ''http://a'']"
    by (simp add: run_ces_async_def s Let_def e truthy_simps n)
  show "snd (run_serpapi_async (Some dup_engine) demo_handle_response Some True demo_preprocess (U ''q''))
     = [U ''http://a'', U ''http://a'', U ''http://b'', U ''http://a'']"
    by (simp add: run_serpapi_async_def s Let_def demo_handle_response_def w x organic_items_def
          truthy_simps n e dict_get_def)
qed

theorem dedup_keeps_first_seen_order_witness:
  "(\<exists>texts. texts \<noteq> []
      \<and> fst (run_naver_async (Some dup_engine) True demo_preprocess (U ''q''))
          = BODY_HEADER @ py_join [10, 10] texts
            @ SOURCES_HEADER @ source_line (U ''http://a'') @ [10] @ source_line (U ''http://b''))
   \<and> (\<exists>texts. texts \<noteq> []
      \<and> fst (run_ces_async (Some dup_engine) True demo_preprocess (U ''q''))
          = BODY_HEADER @ py_join [10, 10] texts
            @ SOURCES_HEADER @ source_line (U ''http://a'') @ [10] @ source_line (U ''http://b''))
   \<and> (\<exists>texts. texts \<noteq> []
      \<and> fst (run_serpapi_async (Some dup_engine) demo_handle_response Some True demo_preprocess (U ''q''))
          = BODY_HEADER @ py_join [10, 10] texts
            @ SOURCES_HEADER @ source_line (U ''http://a'') @ [10] @ source_line (U ''http://b''))
   \<and> fst (run_pipeline env_tool_links query_ieung empty_state)
       = fst (search_stages env_tool_links query_ieung (invoke Decide empty_state))
         @ SOURCES_HEADER @ source_line (U ''http://a'') @ [10] @ source_line (U ''http://b'')"
proof -
  have ne: "U ''http://a'' \<noteq> []" "U ''http://b'' \<noteq> []" "U ''http://a'' \<noteq> U ''http://b''"
    by (simp_all add: U_def)
  have d: "decide_stage env_tool_links query_ieung \<noteq> U ''NO_SEARCH''"
    by (simp add: tool_links_ready SEARCH_neq_NO_SEARCH)
  from dedup_keeps_first_seen_order [OF ne, of "Some dup_engine" True demo_preprocess "U ''q''"
         "Some dup_engine" "Some dup_engine" demo_handle_response Some "[]" env_tool_links
         query_ieung empty_state]
    dup_links tool_links_ready(1) d tool_links_outcome [of "invoke Decide empty_state"]
  show ?thesis by simp
qed

section \<open>What is appended to the checked summary\<close>

lemma parse_ok:
  "parse_agent_observation urlparse_plain (PyStr (U ''ok'')) = (U ''ok'', [])"
proof -
  have l: "found_links_raw (U ''ok'') = []"
    by (simp add: found_links_raw_def fromkeys_def rx_eval)
  have s1: "re_search flags_SI source_section_regex (U ''ok'') = None"
    by (simp add: rx_eval)
  have s2: "re_match flags_I body_label_regex (U ''ok'') = None"
    by (simp add: rx_eval)
  have s3: "re_search flags_SI final_answer_regex (U ''ok'') = None"
    by (simp add: rx_eval)
  have c: "extract_content (U ''ok'') [] = U ''ok''"
    by (simp add: extract_content_def s1 s2 s3)
  have n: "U ''ok'' \<noteq> []" by (simp add: U_def)
  show ?thesis
    by (simp add: parse_agent_observation_def parse_body_def l c n)
qed

lemma ok_facts:
  "py_strip (U ''ok'') = U ''ok''" "U ''ok'' \<noteq> []"
  "\<not> list_ex (contains (U ''ok'')) SUMMARY_SKIP_MARKERS"
  "\<not> list_ex (contains (U ''ok'')) FACT_CHECK_FAIL_MARKERS"
proof -
  show "py_strip (U ''ok'') = U ''ok''"
    by (rule strip_plain) (simp_all add: U_def isspace_def)
  show "U ''ok'' \<noteq> []" by (simp add: U_def)
  show "\<not> list_ex (contains (U ''ok'')) SUMMARY_SKIP_MARKERS"
    "\<not> list_ex (contains (U ''ok'')) FACT_CHECK_FAIL_MARKERS"
    by (simp_all add: SUMMARY_SKIP_MARKERS_def FACT_CHECK_FAIL_MARKERS_def U_def startswith_def)
qed

text \<open>With the chains of \<open>base_env\<close>, an agent that answers \<open>ok\<close> gives the checked summary
  \<open>ok\<close>, whatever its trace.\<close>

lemma ok_body:
  assumes "\<And>m x. \<exists>steps. ag m x = (Inr \<lparr>output_text = Some (U ''ok''), intermediate_steps = steps\<rparr>, m)"
  shows "fst (search_stages (base_env\<lparr>agent := ag\<rparr>) q st) = U ''ok''"
proof -
  let ?env = "base_env\<lparr>agent := ag\<rparr>"
  let ?refined = "refine_stage ?env q"
  let ?inp = "agent_input ?refined (tool_map_get (choose_stage ?env ?refined))"
  from assms [of "memory (invoke Choose (invoke Refine st))" ?inp] obtain steps where
    a: "ag (memory (invoke Choose (invoke Refine st))) ?inp
          = (Inr \<lparr>output_text = Some (U ''ok''), intermediate_steps = steps\<rparr>,
             memory (invoke Choose (invoke Refine st)))"
    by blast
  obtain obs ls where o: "agent_outcome (Inr \<lparr>output_text = Some (U ''ok''), intermediate_steps = steps\<rparr>)
      = (U ''ok'', obs, ls)"
    by (simp add: agent_outcome_def dict_get_def ok_facts Let_def split_beta)
  have p: "parse_stage ?env (U ''ok'') = U ''ok''"
    by (simp add: parse_stage_def ok_facts Let_def) (simp add: base_env_def parse_ok ok_facts)
  have sm: "summary_stage ?env (U ''ok'') r st' = (U ''ok'', invoke Summarize st')" for st' r
    by (simp add: summary_stage_def ok_facts) (simp add: base_env_def dict_get_def ok_facts)
  have fc: "fact_check_stage ?env (U ''ok'') obs st' = (U ''ok'', invoke FactCheck st')" for st'
    by (simp add: fact_check_stage_def) (simp add: base_env_def dict_get_def ok_facts)
  from a show ?thesis
    by (simp add: search_stages_def Let_def o p sm fc)
qed

lemma fromkeys_distinct_clean:
  "distinct ls \<Longrightarrow> [] \<notin> set ls \<Longrightarrow> fromkeys (filter (\<lambda>l. l \<noteq> []) ls) = ls"
proof -
  assume d: "distinct ls" and n: "[] \<notin> set ls"
  from n have "filter (\<lambda>l. l \<noteq> []) ls = ls" by (induction ls) auto
  with d show ?thesis by (simp add: fromkeys_distinct_id)
qed

text \<open>
  C10, as amended. On the search path the final answer is the checked summary followed by
  what the pipeline appends, and that is built from the link list of the most recent
  retrieval-tool step of the agent's trace and from nothing else: a non-empty list of
  distinct non-empty links is appended as the sources block, and when the agent raised, or
  its trace has no such step, nothing is appended. The links that the parser finds in the
  agent's final text are not used.
\<close>

theorem sources_appended_from_tool_step:
  assumes "components_ready env" and "decide_stage env q \<noteq> U ''NO_SEARCH''"
  shows "fst (run_pipeline env q st)
           = attach_links (fst (search_stages env q (invoke Decide st)))
               (case fst (agent_call env q (invoke Decide st)) of
                  Inl e \<Rightarrow> []
                | Inr r \<Rightarrow> (case last_tool_observation (rev (dict_get (intermediate_steps r) [])) of
                              None \<Rightarrow> []
                            | Some (obs, ls) \<Rightarrow> ls))
         \<and> (fst (agent_call env q (invoke Decide st)) = Inr r
              \<and> intermediate_steps r = Some (pre @ Step tool (ObsPair obs ls) # post)
              \<and> tool \<in> {U ''serpapi_search'', U ''naver_search'', U ''ces_search''}
              \<and> last_tool_observation (rev post) = None
              \<and> ls \<noteq> [] \<and> distinct ls \<and> [] \<notin> set ls
            \<longrightarrow> fst (run_pipeline env q st)
                  = fst (search_stages env q (invoke Decide st))
                    @ SOURCES_HEADER @ py_join [10] (map source_line ls))
         \<and> (fst (agent_call env q (invoke Decide st)) = Inr r
              \<and> last_tool_observation (rev (dict_get (intermediate_steps r) [])) = None
            \<longrightarrow> fst (run_pipeline env q st) = fst (search_stages env q (invoke Decide st)))
         \<and> (fst (agent_call env q (invoke Decide st)) = Inl e
            \<longrightarrow> fst (run_pipeline env q st) = fst (search_stages env q (invoke Decide st)))"
proof -
  let ?body = "fst (search_stages env q (invoke Decide st))"
  let ?res = "fst (agent_call env q (invoke Decide st))"
  from assms have run: "fst (run_pipeline env q st) = attach_links ?body (snd (snd (agent_outcome ?res)))"
    by (simp add: run_pipeline_def Let_def ready_search search_path_answer search_stages_links)
  have 1: "fst (run_pipeline env q st)
           = attach_links ?body
               (case ?res of
                  Inl e \<Rightarrow> []
                | Inr r \<Rightarrow> (case last_tool_observation (rev (dict_get (intermediate_steps r) [])) of
                              None \<Rightarrow> []
                            | Some (obs, ls) \<Rightarrow> ls))"
    by (simp only: run agent_outcome_links)
  have 2: "fst (run_pipeline env q st) = ?body @ SOURCES_HEADER @ py_join [10] (map source_line ls)"
    if "?res = Inr r" "intermediate_steps r = Some (pre @ Step tool (ObsPair obs ls) # post)"
       "tool \<in> {U ''serpapi_search'', U ''naver_search'', U ''ces_search''}"
       "last_tool_observation (rev post) = None" "ls \<noteq> []" "distinct ls" "[] \<notin> set ls"
  proof -
    from that(3) have "tool \<in> set TOOL_NAMES" by (simp add: TOOL_NAMES_def)
    from this that(4) have "last_tool_observation (rev (pre @ Step tool (ObsPair obs ls) # post)) = Some (obs, ls)"
      by (rule last_tool_observation_most_recent)
    with that(1,2) have "fst (run_pipeline env q st) = attach_links ?body ls"
      by (simp add: 1 dict_get_def)
    with that(5) fromkeys_distinct_clean [OF that(6,7)] show ?thesis
      by (simp add: attach_links_def Let_def)
  qed
  have 3: "fst (run_pipeline env q st) = ?body"
    if "?res = Inr r" "last_tool_observation (rev (dict_get (intermediate_steps r) [])) = None"
    using that by (simp add: 1 attach_links_none)
  have 4: "fst (run_pipeline env q st) = ?body" if "?res = Inl e"
    using that by (simp add: 1 attach_links_none)
  show ?thesis
  proof (intro conjI impI; (elim conjE)?)
    show "fst (run_pipeline env q st)
           = attach_links ?body
               (case ?res of
                  Inl e \<Rightarrow> []
                | Inr r \<Rightarrow> (case last_tool_observation (rev (dict_get (intermediate_steps r) [])) of
                              None \<Rightarrow> []
                            | Some (obs, ls) \<Rightarrow> ls))"
      by (rule 1)
  next
    assume "?res = Inr r" "intermediate_steps r = Some (pre @ Step tool (ObsPair obs ls) # post)"
       "tool \<in> {U ''serpapi_search'', U ''naver_search'', U ''ces_search''}"
       "last_tool_observation (rev post) = None" "ls \<noteq> []" "distinct ls" "[] \<notin> set ls"
    then show "fst (run_pipeline env q st) = ?body @ SOURCES_HEADER @ py_join [10] (map source_line ls)"
      by (rule 2)
  next
    assume "?res = Inr r" "last_tool_observation (rev (dict_get (intermediate_steps r) [])) = None"
    then show "fst (run_pipeline env q st) = ?body" by (rule 3)
  next
    assume "?res = Inl e"
    then show "fst (run_pipeline env q st) = ?body" by (rule 4)
  qed
qed

lemma two_steps_ready:
  "components_ready env_two_steps"
  "decide_stage env_two_steps query_ieung = U ''SEARCH''"
  by (simp add: components_ready_def env_two_steps_def base_env_def)
     (rule decide_base, simp add: env_two_steps_def base_env_def)

theorem sources_appended_from_tool_step_witness:
  "fst (run_pipeline env_two_steps query_ieung empty_state)
     = U ''ok'' @ SOURCES_HEADER @ source_line (U ''http://a'') @ [10] @ source_line (U ''http://b'')
   \<and> fst (run_pipeline env_url_in_answer query_ieung empty_state) = U ''see http://a.b''
   \<and> snd (parse_agent_observation (urlparse_fn env_url_in_answer) (PyStr (U ''see http://a.b'')))
       = [U ''http://a.b'']
   \<and> fst (agent_call env_agent_raises query_ieung (invoke Decide empty_state))
       = Inl (OtherError (U ''boom''))
   \<and> fst (run_pipeline env_agent_raises query_ieung empty_state)
       = fst (search_stages env_agent_raises query_ieung (invoke Decide empty_state))"
proof -
  let ?r = "\<lparr>output_text = Some (U ''see http://a.b''), intermediate_steps = Some []\<rparr>"
  have d: "decide_stage env_url_in_answer query_ieung \<noteq> U ''NO_SEARCH''"
    by (simp add: url_in_answer_ready SEARCH_neq_NO_SEARCH)
  have a: "fst (agent_call env_url_in_answer query_ieung (invoke Decide empty_state)) = Inr ?r"
    by (simp add: agent_call_def env_url_in_answer_def base_env_def)
  have l: "last_tool_observation (rev (dict_get (intermediate_steps ?r) [])) = None"
    by (simp add: dict_get_def)
  from sources_appended_from_tool_step [OF url_in_answer_ready(1) d, of empty_state ?r] a l
  have 1: "fst (run_pipeline env_url_in_answer query_ieung empty_state)
           = fst (search_stages env_url_in_answer query_ieung (invoke Decide empty_state))"
    by (simp add: attach_links_none)
  have 2: "snd (parse_agent_observation (urlparse_fn env_url_in_answer) (PyStr (U ''see http://a.b'')))
       = [U ''http://a.b'']"
    by (simp add: env_url_in_answer_def base_env_def parse_url_in_answer)
  let ?steps = "[Step (U ''naver_search'') (ObsPair (U ''old'') [U ''http://c'']),
                 Step (U ''calculator'') ObsOther,
                 Step (U ''ces_search'') (ObsPair (U ''text'') [U ''http://a'', U ''http://b'']),
                 BadStep]"
  let ?t = "\<lparr>output_text = Some (U ''ok''), intermediate_steps = Some ?steps\<rparr>"
  have d': "decide_stage env_two_steps query_ieung \<noteq> U ''NO_SEARCH''"
    by (simp add: two_steps_ready SEARCH_neq_NO_SEARCH)
  have a': "fst (agent_call env_two_steps query_ieung (invoke Decide empty_state)) = Inr ?t"
    by (simp add: agent_call_def env_two_steps_def base_env_def)
  have s': "intermediate_steps ?t
      = Some ([Step (U ''naver_search'') (ObsPair (U ''old'') [U ''http://c'']),
               Step (U ''calculator'') ObsOther]
              @ Step (U ''ces_search'') (ObsPair (U ''text'') [U ''http://a'', U ''http://b'']) # [BadStep])"
    by simp
  have h: "U ''ces_search'' \<in> {U ''serpapi_search'', U ''naver_search'', U ''ces_search''}"
    "last_tool_observation (rev [BadStep]) = None"
    "[U ''http://a'', U ''http://b''] \<noteq> []" "distinct [U ''http://a'', U ''http://b'']"
    "[] \<notin> set [U ''http://a'', U ''http://b'']"
    by (simp_all add: U_def)
  have b: "fst (search_stages env_two_steps query_ieung (invoke Decide empty_state)) = U ''ok''"
    unfolding env_two_steps_def by (rule ok_body) simp
  note t = sources_appended_from_tool_step [OF two_steps_ready(1) d', of empty_state ?t
      "[Step (U ''naver_search'') (ObsPair (U ''old'') [U ''http://c'']), Step (U ''calculator'') ObsOther]"
      "U ''ces_search''" "U ''text''" "[U ''http://a'', U ''http://b'']" "[BadStep]"]
  have "fst (run_pipeline env_two_steps query_ieung empty_state)
     = fst (search_stages env_two_steps query_ieung (invoke Decide empty_state))
       @ SOURCES_HEADER @ py_join [10] (map source_line [U ''http://a'', U ''http://b''])"
    by (rule t [THEN conjunct2, THEN conjunct1, THEN mp]) (intro conjI a' s' h)
  with b have 3: "fst (run_pipeline env_two_steps query_ieung empty_state)
     = U ''ok'' @ SOURCES_HEADER @ source_line (U ''http://a'') @ [10] @ source_line (U ''http://b'')"
    by simp
  have r4: "components_ready env_agent_raises"
    by (simp add: components_ready_def env_agent_raises_def base_env_def)
  have "decide_stage env_agent_raises query_ieung = U ''SEARCH''"
    by (rule decide_base) (simp add: env_agent_raises_def base_env_def)
  then have d4: "decide_stage env_agent_raises query_ieung \<noteq> U ''NO_SEARCH''"
    by (simp add: SEARCH_neq_NO_SEARCH)
  have a4: "fst (agent_call env_agent_raises query_ieung (invoke Decide empty_state))
      = Inl (OtherError (U ''boom''))"
    by (simp add: agent_call_def env_agent_raises_def)
  have 4: "fst (run_pipeline env_agent_raises query_ieung empty_state)
       = fst (search_stages env_agent_raises query_ieung (invoke Decide empty_state))"
    by (rule sources_appended_from_tool_step [OF r4 d4, THEN conjunct2, THEN conjunct2, THEN conjunct2,
          THEN mp]) (rule a4)
  from 1 2 3 a4 4 show ?thesis by (simp add: url_in_answer_body)
qed

text \<open>
  C10 as stated fails when the checked summary itself holds a sources block: the fact
  check is asked to end its answer with one. No retrieval step yielded links, nothing is
  appended, and the final answer still carries the block.
\<close>

theorem llm_sources_block_counterexample:
  "fst (agent_call env_factcheck_sources query_ieung (invoke Decide empty_state))
     = Inr \<lparr>output_text = Some (U ''ok''), intermediate_steps = Some []\<rparr>
   \<and> fst (run_pipeline env_factcheck_sources query_ieung empty_state)
       = U ''ok'' @ SOURCES_HEADER @ source_line (U ''http://x'')
   \<and> contains (fst (run_pipeline env_factcheck_sources query_ieung empty_state)) SOURCES_HEADER"
proof -
  let ?env = env_factcheck_sources
  let ?out = "U ''ok'' @ SOURCES_HEADER @ source_line (U ''http://x'')"
  have r: "components_ready ?env"
    by (simp add: components_ready_def env_factcheck_sources_def base_env_def)
  have d: "decide_stage ?env query_ieung = U ''SEARCH''"
    by (rule decide_base) (simp add: env_factcheck_sources_def base_env_def)
  have a: "agent ?env m x = (Inr \<lparr>output_text = Some (U ''ok''), intermediate_steps = Some []\<rparr>, m)" for m x
    by (simp add: env_factcheck_sources_def base_env_def)
  have o: "agent_outcome (Inr \<lparr>output_text = Some (U ''ok''), intermediate_steps = Some []\<rparr>)
             = (U ''ok'', U ''ok'', [])"
    by (simp add: agent_outcome_def dict_get_def ok_facts Let_def)
  have p: "parse_stage ?env (U ''ok'') = U ''ok''"
    by (simp add: parse_stage_def ok_facts Let_def)
       (simp add: env_factcheck_sources_def base_env_def parse_ok ok_facts)
  have sm: "summary_stage ?env (U ''ok'') x st = (U ''ok'', invoke Summarize st)" for st x
    by (simp add: summary_stage_def ok_facts)
       (simp add: env_factcheck_sources_def base_env_def dict_get_def ok_facts)
  have s: "py_strip ?out = ?out"
    by (rule strip_plain) (simp_all add: U_def isspace_def SOURCES_HEADER_def source_line_def)
  have n: "?out \<noteq> []" by (simp add: U_def)
  have nm: "\<not> list_ex (contains ?out) FACT_CHECK_FAIL_MARKERS"
    by (simp add: FACT_CHECK_FAIL_MARKERS_def U_def startswith_def SOURCES_HEADER_def source_line_def)
  have fc: "fact_check_stage ?env (U ''ok'') (U ''ok'') st = (?out, invoke FactCheck st)" for st
    by (simp add: fact_check_stage_def)
       (simp add: env_factcheck_sources_def base_env_def dict_get_def s n nm)
  have run: "fst (run_pipeline ?env query_ieung empty_state) = ?out"
    by (simp add: run_pipeline_def r ready_search d SEARCH_neq_NO_SEARCH Let_def search_path_def
          search_stages_def a o p sm fc attach_links_def)
  have c: "contains ?out SOURCES_HEADER"
    by (simp add: U_def startswith_def SOURCES_HEADER_def source_line_def)
  have ac: "fst (agent_call ?env query_ieung (invoke Decide empty_state))
     = Inr \<lparr>output_text = Some (U ''ok''), intermediate_steps = Some []\<rparr>"
    by (simp add: agent_call_def a)
  from ac run c show ?thesis by simp
qed

section \<open>The matcher finds the words of a pattern\<close>

lemma step_char_sound:
  "st' \<in> set (step_char P st) \<Longrightarrow>
     \<exists>c. P c \<and> fst (snd st) = [c] @ fst (snd st') \<and> fst st' = rev [c] @ fst st"
  by (cases "(P, st)" rule: step_char.cases) (auto split: if_splits)

lemma star_append: "u \<in> star L \<Longrightarrow> v \<in> star L \<Longrightarrow> u @ v \<in> star L"
  by (induction rule: star.induct) (auto intro: star.intros)

lemma star_single: "u \<in> L \<Longrightarrow> u \<in> star L"
  using star_app [of u L "[]"] by (simp add: star_nil)

lemma rxm_sound:
  "st' \<in> set (rxm fl r st) \<Longrightarrow>
     \<exists>w. w \<in> lang fl r \<and> fst (snd st) = w @ fst (snd st') \<and> fst st' = rev w @ fst st"
proof (induction fl r st arbitrary: st' rule: rxm.induct)
  case (6 fl a b st)
  from "6.prems" obtain st1 where 1: "st1 \<in> set (rxm fl a st)" and 2: "st' \<in> set (rxm fl b st1)"
    by auto
  from "6.IH"(1) [OF 1] obtain u where u: "u \<in> lang fl a" "fst (snd st) = u @ fst (snd st1)"
    "fst st1 = rev u @ fst st" by blast
  from "6.IH"(2) [OF 1 2] obtain v where v: "v \<in> lang fl b" "fst (snd st1) = v @ fst (snd st')"
    "fst st' = rev v @ fst st1" by blast
  from u v show ?case by (intro exI [of _ "u @ v"]) auto
next
  case (7 fl a b st)
  from "7.prems" have "st' \<in> set (rxm fl a st) \<or> st' \<in> set (rxm fl b st)" by simp
  then show ?case using "7.IH"(1) [of st'] "7.IH"(2) [of st'] by auto
next
  case (8 fl a st)
  from "8.prems" have "st' \<in> set (rxm fl a st) \<or> st' = st" by auto
  then show ?case using "8.IH" [of st'] by auto
next
  case (9 fl a st)
  have e: "rxm fl (Star a) st
      = concat (map (\<lambda>x. if remaining x < remaining st then rxm fl (Star a) x else [x]) (rxm fl a st)) @ [st]"
    by (rule rxm.simps)
  from "9.prems" consider "st' = st"
    | st1 where "st1 \<in> set (rxm fl a st)" "remaining st1 < remaining st" "st' \<in> set (rxm fl (Star a) st1)"
    | "st' \<in> set (rxm fl a st)" "\<not> remaining st' < remaining st"
    by (auto simp add: e simp del: rxm.simps split: if_splits)
  then show ?case
  proof cases
    case 1
    then show ?thesis by (intro exI [of _ "[]"]) (simp add: star_nil)
  next
    case 2
    from "9.IH"(1) [OF 2(1)] obtain u where u: "u \<in> lang fl a" "fst (snd st) = u @ fst (snd st1)"
      "fst st1 = rev u @ fst st" by blast
    from "9.IH"(2) [OF 2(1) 2(2) 2(3)] obtain v where v: "v \<in> lang fl (Star a)"
      "fst (snd st1) = v @ fst (snd st')" "fst st' = rev v @ fst st1" by blast
    from u v show ?thesis by (intro exI [of _ "u @ v"]) (auto intro: star_app)
  next
    case 3
    from "9.IH"(1) [OF 3(1)] obtain u where u: "u \<in> lang fl a" "fst (snd st) = u @ fst (snd st')"
      "fst st' = rev u @ fst st" by blast
    then show ?thesis by (intro exI [of _ u]) (auto intro: star_single)
  qed
next
  case (10 fl a st)
  have e: "rxm fl (LazyStar a) st
      = st # concat (map (\<lambda>x. if remaining x < remaining st then rxm fl (LazyStar a) x else [x]) (rxm fl a st))"
    by (rule rxm.simps)
  from "10.prems" consider "st' = st"
    | st1 where "st1 \<in> set (rxm fl a st)" "remaining st1 < remaining st" "st' \<in> set (rxm fl (LazyStar a) st1)"
    | "st' \<in> set (rxm fl a st)" "\<not> remaining st' < remaining st"
    by (auto simp add: e simp del: rxm.simps split: if_splits)
  then show ?case
  proof cases
    case 1
    then show ?thesis by (intro exI [of _ "[]"]) (simp add: star_nil)
  next
    case 2
    from "10.IH"(1) [OF 2(1)] obtain u where u: "u \<in> lang fl a" "fst (snd st) = u @ fst (snd st1)"
      "fst st1 = rev u @ fst st" by blast
    from "10.IH"(2) [OF 2(1) 2(2) 2(3)] obtain v where v: "v \<in> lang fl (LazyStar a)"
      "fst (snd st1) = v @ fst (snd st')" "fst st' = rev v @ fst st1" by blast
    from u v show ?thesis by (intro exI [of _ "u @ v"]) (auto intro: star_app)
  next
    case 3
    from "10.IH"(1) [OF 3(1)] obtain u where u: "u \<in> lang fl a" "fst (snd st) = u @ fst (snd st')"
      "fst st' = rev u @ fst st" by blast
    then show ?thesis by (intro exI [of _ u]) (auto intro: star_single)
  qed
next
  case (11 fl n a st)
  from "11.prems" obtain p r g where "(p, r, g) \<in> set (rxm fl a st)" "fst st' = p" "fst (snd st') = r"
    by auto
  with "11.IH" [of "(p, r, g)"] show ?case by simp
qed (auto dest!: step_char_sound split: if_splits)

lemma star_complete:
  assumes a: "\<And>w pre rest g. w \<in> lang fl a \<Longrightarrow>
                \<exists>g'. (rev w @ pre, rest, g') \<in> set (rxm fl a (pre, w @ rest, g))"
    and v: "v \<in> star (lang fl a)"
  shows "\<exists>g'. (rev v @ pre, rest, g') \<in> set (rxm fl (Star a) (pre, v @ rest, g))"
    and "\<exists>g'. (rev v @ pre, rest, g') \<in> set (rxm fl (LazyStar a) (pre, v @ rest, g))"
proof -
  from v have "\<forall>pre rest g.
      (\<exists>g'. (rev v @ pre, rest, g') \<in> set (rxm fl (Star a) (pre, v @ rest, g)))
    \<and> (\<exists>g'. (rev v @ pre, rest, g') \<in> set (rxm fl (LazyStar a) (pre, v @ rest, g)))"
  proof (induction rule: star.induct)
    case star_nil
    show ?case
    proof (intro allI)
      fix pre rest :: ustr and g :: "(nat \<times> ustr) list"
      let ?st = "(pre, [] @ rest, g)"
      have e: "rxm fl (Star a) ?st
           = concat (map (\<lambda>x. if remaining x < remaining ?st then rxm fl (Star a) x else [x]) (rxm fl a ?st)) @ [?st]"
        by (rule rxm.simps)
      have e': "rxm fl (LazyStar a) ?st
           = ?st # concat (map (\<lambda>x. if remaining x < remaining ?st then rxm fl (LazyStar a) x else [x]) (rxm fl a ?st))"
        by (rule rxm.simps)
      have "(rev [] @ pre, rest, g) \<in> set (rxm fl (Star a) ?st)"
        unfolding e by (simp del: rxm.simps)
      moreover have "(rev [] @ pre, rest, g) \<in> set (rxm fl (LazyStar a) ?st)"
        unfolding e' by (simp del: rxm.simps)
      ultimately show "(\<exists>g'. (rev [] @ pre, rest, g') \<in> set (rxm fl (Star a) (pre, [] @ rest, g)))
           \<and> (\<exists>g'. (rev [] @ pre, rest, g') \<in> set (rxm fl (LazyStar a) (pre, [] @ rest, g)))"
        by blast
    qed
  next
    case (star_app u v)
    show ?case
    proof (cases "u = []")
      case True
      with star_app.IH show ?thesis by (simp del: rxm.simps)
    next
      case False
      show ?thesis
      proof (intro allI)
        fix pre rest :: ustr and g :: "(nat \<times> ustr) list"
        let ?st = "(pre, (u @ v) @ rest, g)"
        from a [OF star_app.hyps(1), of pre "v @ rest" g] obtain g1
          where 1: "(rev u @ pre, v @ rest, g1) \<in> set (rxm fl a ?st)" by auto
        from False have lt: "remaining (rev u @ pre, v @ rest, g1) < remaining ?st"
          by (simp add: remaining_def)
        from star_app.IH obtain g2 g3
          where 2: "(rev v @ rev u @ pre, rest, g2) \<in> set (rxm fl (Star a) (rev u @ pre, v @ rest, g1))"
            and 3: "(rev v @ rev u @ pre, rest, g3) \<in> set (rxm fl (LazyStar a) (rev u @ pre, v @ rest, g1))"
          by blast
        have e: "rxm fl (Star a) ?st
           = concat (map (\<lambda>x. if remaining x < remaining ?st then rxm fl (Star a) x else [x]) (rxm fl a ?st)) @ [?st]"
          by (rule rxm.simps)
        have e': "rxm fl (LazyStar a) ?st
           = ?st # concat (map (\<lambda>x. if remaining x < remaining ?st then rxm fl (LazyStar a) x else [x]) (rxm fl a ?st))"
          by (rule rxm.simps)
        have "(rev (u @ v) @ pre, rest, g2) \<in> set (rxm fl (Star a) ?st)"
          unfolding e using 1 2 lt by (auto simp del: rxm.simps intro!: bexI [of _ "(rev u @ pre, v @ rest, g1)"])
        moreover have "(rev (u @ v) @ pre, rest, g3) \<in> set (rxm fl (LazyStar a) ?st)"
          unfolding e' using 1 3 lt by (auto simp del: rxm.simps intro!: bexI [of _ "(rev u @ pre, v @ rest, g1)"])
        ultimately show "(\<exists>g'. (rev (u @ v) @ pre, rest, g') \<in> set (rxm fl (Star a) (pre, (u @ v) @ rest, g)))
           \<and> (\<exists>g'. (rev (u @ v) @ pre, rest, g') \<in> set (rxm fl (LazyStar a) (pre, (u @ v) @ rest, g)))"
          by blast
      qed
    qed
  qed
  then show "\<exists>g'. (rev v @ pre, rest, g') \<in> set (rxm fl (Star a) (pre, v @ rest, g))"
    and "\<exists>g'. (rev v @ pre, rest, g') \<in> set (rxm fl (LazyStar a) (pre, v @ rest, g))"
    by blast+
qed

lemma rxm_complete:
  "pure r \<Longrightarrow> w \<in> lang fl r \<Longrightarrow>
     \<exists>g'. (rev w @ pre, rest, g') \<in> set (rxm fl r (pre, w @ rest, g))"
proof (induction r arbitrary: w pre rest g)
  case (Seq a b)
  from Seq.prems obtain u v where w: "w = u @ v" "u \<in> lang fl a" "v \<in> lang fl b" by auto
  from Seq.IH(1) [OF _ w(2), of pre "v @ rest" g] Seq.prems(1) obtain g1
    where 1: "(rev u @ pre, v @ rest, g1) \<in> set (rxm fl a (pre, u @ v @ rest, g))" by auto
  from Seq.IH(2) [OF _ w(3), of "rev u @ pre" rest g1] Seq.prems(1) obtain g2
    where 2: "(rev v @ rev u @ pre, rest, g2) \<in> set (rxm fl b (rev u @ pre, v @ rest, g1))" by auto
  from 1 2 show ?case by (auto simp: w(1) intro!: bexI [of _ "(rev u @ pre, v @ rest, g1)"])
next
  case (Alt a b)
  from Alt.prems have "w \<in> lang fl a \<or> w \<in> lang fl b" by simp
  then show ?case using Alt.IH(1) [of w pre rest g] Alt.IH(2) [of w pre rest g] Alt.prems(1) by auto
next
  case (Opt a)
  from Opt.prems have "w = [] \<or> w \<in> lang fl a" by auto
  then show ?case using Opt.IH [of w pre rest g] Opt.prems(1) by auto
next
  case (Star a)
  from Star.prems have "w \<in> star (lang fl a)" "pure a" by simp_all
  then show ?case using star_complete(1) [of fl a w pre rest g] Star.IH by blast
next
  case (LazyStar a)
  from LazyStar.prems have "w \<in> star (lang fl a)" "pure a" by simp_all
  then show ?case using star_complete(2) [of fl a w pre rest g] LazyStar.IH by blast
next
  case (Group n a)
  from Group.IH [of w pre rest g] Group.prems obtain g' where
    "(rev w @ pre, rest, g') \<in> set (rxm fl a (pre, w @ rest, g))" by auto
  then show ?case by (force simp: image_iff)
qed auto

section \<open>Deleting the matches of a pattern anchored at the end\<close>

lemma re_sub_del_kept: "re_sub_del fl r s = kept (scan fl r [] s 0 False)"
  by (simp add: re_sub_del_def kept_def)

lemma kept_simps:
  "kept [] = []" "kept (Keep c # ps) = c # kept ps" "kept (Hit m # ps) = kept ps"
  by (simp_all add: kept_def)

lemma scan_skip: "scan fl r pre rest (length rest) adv = scan fl r (rev rest @ pre) [] 0 adv"
  by (induction rest arbitrary: pre) (simp_all del: scan.simps(3,4))

lemma kept_scan_end: "kept (scan fl r pre [] 0 adv) = []"
  by (simp add: kept_simps split: option.splits)

lemma sub_del_anchored:
  assumes Q: "\<And>pre rest m. rev pre @ rest = z \<Longrightarrow> m \<in> set (rxm fl r (pre, rest, []))
                \<Longrightarrow> fst (snd m) = []"
  shows "rev pre @ rest = z \<Longrightarrow> kept (scan fl r pre rest 0 False) = strip_at fl r pre rest"
proof (induction rest arbitrary: pre)
  case Nil
  show ?case by (simp add: kept_scan_end del: scan.simps)
next
  case (Cons c cs)
  note IH = Cons.IH and prems = Cons.prems
  show ?case
  proof (cases "rxm fl r (pre, c # cs, [])")
    case Nil
    then have "first_match fl r False (pre, c # cs, []) = None"
      by (simp add: first_match_def)
    then have "scan fl r pre (c # cs) 0 False = Keep c # scan fl r (c # pre) cs 0 False"
      by simp
    with IH [of "c # pre"] prems Nil show ?thesis
      by (simp add: kept_simps del: scan.simps)
  next
    case (Cons m ms)
    then have f: "first_match fl r False (pre, c # cs, []) = Some m"
      by (simp add: first_match_def)
    from Q [OF prems, of m] Cons have "remaining m = 0"
      by (simp add: remaining_def)
    with f have "scan fl r pre (c # cs) 0 False = Hit m # scan fl r pre (c # cs) (length (c # cs)) False"
      by simp
    then have "kept (scan fl r pre (c # cs) 0 False) = []"
      by (simp only: kept_simps scan_skip kept_scan_end)
    with Cons show ?thesis by simp
  qed
qed

lemma eol_anchored:
  assumes z: "z = [] \<or> last z \<noteq> 10" and s: "rev pre @ rest = z"
    and m: "m \<in> set (rxm fl (Seq X Eol) (pre, rest, g))"
  shows "fst (snd m) = [] \<and> m \<in> set (rxm fl X (pre, rest, g))"
proof -
  from m obtain st1 where 1: "st1 \<in> set (rxm fl X (pre, rest, g))" and 2: "m \<in> set (rxm fl Eol st1)"
    by auto
  from 2 have e: "m = st1" and c: "fst (snd m) = [] \<or> fst (snd m) = [10]"
    by (auto split: if_splits)
  from rxm_sound [OF 1] e obtain w where "rest = w @ fst (snd m)" by auto
  with s have "z = (rev pre @ w) @ fst (snd m)" by simp
  with z c have "fst (snd m) = []" by auto
  with 1 e show ?thesis by simp
qed

lemma eol_match_iff:
  assumes p: "pure X" and z: "z = [] \<or> last z \<noteq> 10" and s: "rev pre @ rest = z"
  shows "(rxm fl (Seq X Eol) (pre, rest, []) \<noteq> []) = (rest \<in> lang fl X)"
proof
  assume "rxm fl (Seq X Eol) (pre, rest, []) \<noteq> []"
  then obtain m where m: "m \<in> set (rxm fl (Seq X Eol) (pre, rest, []))"
    by (cases "rxm fl (Seq X Eol) (pre, rest, [])") auto
  from eol_anchored [OF z s m] have e: "fst (snd m) = []" and x: "m \<in> set (rxm fl X (pre, rest, []))"
    by simp_all
  from rxm_sound [OF x] e show "rest \<in> lang fl X" by auto
next
  assume "rest \<in> lang fl X"
  from rxm_complete [OF p this, of pre "[]" "[]"] obtain g'
    where "(rev rest @ pre, [], g') \<in> set (rxm fl X (pre, rest, []))" by auto
  then have "(rev rest @ pre, [], g') \<in> set (rxm fl (Seq X Eol) (pre, rest, []))"
    by (auto intro!: bexI [of _ "(rev rest @ pre, [], g')"])
  then show "rxm fl (Seq X Eol) (pre, rest, []) \<noteq> []"
    by (cases "rxm fl (Seq X Eol) (pre, rest, [])") (simp_all del: rxm.simps)
qed

lemma strip_at_suffix:
  assumes H: "\<And>pre rest. rev pre @ rest = z \<Longrightarrow> (rxm fl r (pre, rest, []) \<noteq> []) = (rest \<in> L)"
  shows "rev pre @ rest = z \<Longrightarrow> \<exists>j. rest = strip_at fl r pre rest @ j \<and> (j = [] \<or> j \<in> L)"
proof (induction rest arbitrary: pre)
  case Nil
  show ?case by simp
next
  case (Cons c cs)
  show ?case
  proof (cases "rxm fl r (pre, c # cs, []) = []")
    case True
    with Cons.IH [of "c # pre"] Cons.prems show ?thesis by simp
  next
    case False
    with H [OF Cons.prems] show ?thesis by simp
  qed
qed

lemma strip_at_least:
  assumes H: "\<And>pre rest. rev pre @ rest = z \<Longrightarrow> (rxm fl r (pre, rest, []) \<noteq> []) = (rest \<in> L)"
  shows "rev pre @ rest = z \<Longrightarrow> strip_at fl r pre rest = a @ s \<Longrightarrow> s \<noteq> []
           \<Longrightarrow> drop (length a) rest \<notin> L"
proof (induction rest arbitrary: pre a)
  case Nil
  then show ?case by simp
next
  case (Cons c cs)
  from Cons.prems(2,3) have m: "rxm fl r (pre, c # cs, []) = []"
    by (auto split: if_splits)
  with H [OF Cons.prems(1)] have n: "c # cs \<notin> L" by simp
  show ?case
  proof (cases a)
    case Nil
    with n show ?thesis by simp
  next
    case (Cons x a')
    with Cons.prems(2) m have "strip_at fl r (c # pre) cs = a' @ s" by auto
    from Cons.IH [OF _ this Cons.prems(3)] Cons.prems(1) Cons show ?thesis by simp
  qed
qed

lemma strip_at_clean:
  assumes H: "\<And>pre rest. rev pre @ rest = z \<Longrightarrow> (rxm fl r (pre, rest, []) \<noteq> []) = (rest \<in> L)"
    and C: "\<And>u v. u \<in> L \<Longrightarrow> v \<in> L \<Longrightarrow> u @ v \<in> L"
    and E: "[] \<in> L"
    and w: "strip_at fl r [] z = a @ s" "s \<noteq> []"
  shows "s \<notin> L"
proof
  assume s: "s \<in> L"
  from strip_at_suffix [of z fl r L "[]" z] H obtain j
    where j: "z = strip_at fl r [] z @ j" "j = [] \<or> j \<in> L" by auto
  from j(2) E have "j \<in> L" by auto
  with s C have "s @ j \<in> L" by blast
  moreover from j(1) w(1) have "drop (length a) z = s @ j"
    by (metis append.assoc append_eq_conv_conj)
  moreover from strip_at_least [of z fl r L "[]" z a s] H w have "drop (length a) z \<notin> L" by auto
  ultimately show False by simp
qed

lemma strip_at_fixed:
  assumes H: "\<And>pre rest. rev pre @ rest = w \<Longrightarrow> (rxm fl r (pre, rest, []) \<noteq> []) = (rest \<in> L)"
    and N: "\<And>a s. w = a @ s \<Longrightarrow> s \<noteq> [] \<Longrightarrow> s \<notin> L"
  shows "rev pre @ rest = w \<Longrightarrow> strip_at fl r pre rest = rest"
proof (induction rest arbitrary: pre)
  case Nil
  show ?case by simp
next
  case (Cons c cs)
  from N [of "rev pre" "c # cs"] Cons.prems have "c # cs \<notin> L" by simp
  with H [OF Cons.prems] have "rxm fl r (pre, c # cs, []) = []" by simp
  with Cons.IH [of "c # pre"] Cons.prems show ?case by simp
qed

section \<open>The words of the trailing-junk patterns\<close>

lemma lang_SeqI: "u \<in> lang fl a \<Longrightarrow> v \<in> lang fl b \<Longrightarrow> u @ v \<in> lang fl (Seq a b)"
  by auto

lemma star_mono: "w \<in> star A \<Longrightarrow> A \<subseteq> B \<Longrightarrow> w \<in> star B"
  by (induction rule: star.induct) (auto intro: star.intros)

lemma lang_Plus1: "lang fl (Plus1 r) = {w. \<exists>u v. w = u @ v \<and> u \<in> lang fl r \<and> v \<in> star (lang fl r)}"
  by (simp add: Plus1_def)

lemma plus_closed:
  assumes "u \<in> lang fl (Plus1 r)" "v \<in> lang fl (Plus1 r)"
  shows "u @ v \<in> lang fl (Plus1 r)"
proof -
  from assms obtain a b c d where u: "u = a @ b" "a \<in> lang fl r" "b \<in> star (lang fl r)"
    and v: "v = c @ d" "c \<in> lang fl r" "d \<in> star (lang fl r)"
    by (auto simp: lang_Plus1)
  from v have "v \<in> star (lang fl r)" by (auto intro: star_app)
  with u(3) have "b @ v \<in> star (lang fl r)" by (rule star_append)
  with u show ?thesis by (auto simp: lang_Plus1)
qed

lemma plus_single: "u \<in> lang fl r \<Longrightarrow> u \<in> lang fl (Plus1 r)"
  using star_nil [of "lang fl r"] by (force simp: lang_Plus1)

lemma junk_unitI:
  assumes "a \<in> lang no_flags (Opt (Lit 41))" "b \<in> lang no_flags (Star (In [Space]))"
    "p \<in> lang no_flags (Opt particles)" "c \<in> lang no_flags (Star (In [Space]))"
    "d \<in> lang no_flags (Star (In [Ch 46, Ch 44, Ch 59, Ch 39, Ch 34]))"
  shows "a @ b @ p @ c @ d \<in> lang no_flags (Group 1 junk_unit)"
  unfolding junk_unit_def seqs.simps lang.simps(11)
  by (intro lang_SeqI assms)

lemma junk_parts:
  "[] \<in> lang no_flags (Opt r)" "[] \<in> lang no_flags (Star r)"
  "[41] \<in> lang no_flags (Opt (Lit 41))"
  "in_class cs c \<Longrightarrow> [c] \<in> lang no_flags (Star (In cs))"
  "w \<in> lang no_flags r \<Longrightarrow> w \<in> lang no_flags (Opt r)"
  by (auto simp: star_nil lit_match_def no_flags_def intro: star_single)

lemma junk_empty: "[] \<in> lang no_flags (Group 1 junk_unit)"
proof -
  have "[] @ [] @ [] @ [] @ [] \<in> lang no_flags (Group 1 junk_unit)"
    by (intro junk_unitI junk_parts)
  then show ?thesis by simp
qed

lemma junk_class:
  assumes "in_class [Ch 41, Space, Ch 46, Ch 44, Ch 59, Ch 39, Ch 34] c"
  shows "[c] \<in> lang no_flags (Group 1 junk_unit)"
proof -
  from assms consider "c = 41" | "in_class [Space] c" | "in_class [Ch 46, Ch 44, Ch 59, Ch 39, Ch 34] c"
    by (auto simp: in_class_def)
  then show ?thesis
  proof cases
    case 1
    have "[41] @ [] @ [] @ [] @ [] \<in> lang no_flags (Group 1 junk_unit)"
      by (intro junk_unitI junk_parts)
    with 1 show ?thesis by simp
  next
    case 2
    have "[] @ [c] @ [] @ [] @ [] \<in> lang no_flags (Group 1 junk_unit)"
      by (intro junk_unitI junk_parts 2)
    then show ?thesis by simp
  next
    case 3
    have "[] @ [] @ [] @ [] @ [c] \<in> lang no_flags (Group 1 junk_unit)"
      by (intro junk_unitI junk_parts 3)
    then show ?thesis by simp
  qed
qed


lemma junk_particle:
  assumes "w \<in> lang no_flags particles"
  shows "w \<in> lang no_flags (Group 1 junk_unit)"
proof -
  have "[] @ [] @ w @ [] @ [] \<in> lang no_flags (Group 1 junk_unit)"
    by (intro junk_unitI junk_parts assms)
  then show ?thesis by simp
qed

lemma junk_facts:
  "[] \<in> junk"
  "u \<in> junk \<Longrightarrow> v \<in> junk \<Longrightarrow> u @ v \<in> junk"
  "in_class [Ch 41, Space, Ch 46, Ch 44, Ch 59, Ch 39, Ch 34] c \<Longrightarrow> [c] \<in> junk"
  "w \<in> lang no_flags particles \<Longrightarrow> w \<in> junk"
proof -
  show "[] \<in> junk"
    unfolding junk_def by (rule plus_single) (rule junk_empty)
  show "u \<in> junk \<Longrightarrow> v \<in> junk \<Longrightarrow> u @ v \<in> junk"
    unfolding junk_def by (rule plus_closed)
  show "in_class [Ch 41, Space, Ch 46, Ch 44, Ch 59, Ch 39, Ch 34] c \<Longrightarrow> [c] \<in> junk"
    unfolding junk_def by (rule plus_single) (rule junk_class)
  show "w \<in> lang no_flags particles \<Longrightarrow> w \<in> junk"
    unfolding junk_def by (rule plus_single) (rule junk_particle)
qed

lemma simple_junk_is_junk:
  assumes "w \<in> lang no_flags (Plus1 (In [Ch 41, Space, Ch 46, Ch 44, Ch 59, Ch 39, Ch 34]))"
  shows "w \<in> junk"
proof -
  let ?C = "lang no_flags (In [Ch 41, Space, Ch 46, Ch 44, Ch 59, Ch 39, Ch 34])"
  have sub: "?C \<subseteq> lang no_flags (Group 1 junk_unit)"
    using junk_class by (auto simp del: lang.simps(11))
  from assms obtain u v where w: "w = u @ v" "u \<in> ?C" "v \<in> star ?C"
    unfolding lang_Plus1 by blast
  from w(3) sub have "v \<in> star (lang no_flags (Group 1 junk_unit))" by (rule star_mono)
  with w(1,2) sub show ?thesis unfolding junk_def lang_Plus1 by blast
qed

section \<open>Cleaning a link\<close>

lemma py_strip_Nil: "py_strip [] = []"
  by (simp add: py_strip_def)

lemma last_dropWhile: "dropWhile P xs \<noteq> [] \<Longrightarrow> last (dropWhile P xs) = last xs"
  by (induction xs) auto

lemma py_strip_ends:
  assumes "py_strip x \<noteq> []"
  shows "\<not> isspace (hd (py_strip x))" and "\<not> isspace (last (py_strip x))"
proof -
  let ?d = "dropWhile isspace x"
  let ?e = "dropWhile isspace (rev ?d)"
  from assms have e: "?e \<noteq> []" by (simp add: py_strip_def)
  then have "\<not> isspace (hd ?e)" by (rule hd_dropWhile)
  with e show "\<not> isspace (last (py_strip x))" by (simp add: py_strip_def last_rev)
  have d: "?d \<noteq> []"
  proof
    assume "?d = []"
    then have "?e = []" by (simp only: rev.simps dropWhile.simps)
    with e show False by simp
  qed
  from e have "last ?e = last (rev ?d)" by (rule last_dropWhile)
  also from d have "\<dots> = hd ?d" by (simp add: last_rev)
  finally have "hd (py_strip x) = hd ?d" using e by (simp add: py_strip_def hd_rev)
  moreover from d have "\<not> isspace (hd ?d)" by (rule hd_dropWhile)
  ultimately show "\<not> isspace (hd (py_strip x))" by simp
qed

lemma pure_junk:
  "pure (Plus1 (Group 1 junk_unit))"
  "pure (Plus1 (In [Ch 41, Space, Ch 46, Ch 44, Ch 59, Ch 39, Ch 34]))"
  by (simp_all add: Plus1_def junk_unit_def particles_def lits_def)

lemma junk_match:
  assumes "z = [] \<or> last z \<noteq> 10" "rev pre @ rest = z"
  shows "(rxm no_flags trailing_junk_regex (pre, rest, []) \<noteq> []) = (rest \<in> junk)"
  unfolding trailing_junk_regex_def junk_def
  using pure_junk(1) assms by (rule eol_match_iff)

lemma simple_junk_match:
  assumes "z = [] \<or> last z \<noteq> 10" "rev pre @ rest = z"
  shows "(rxm no_flags simple_trailing_junk_regex (pre, rest, []) \<noteq> [])
           = (rest \<in> lang no_flags (Plus1 (In [Ch 41, Space, Ch 46, Ch 44, Ch 59, Ch 39, Ch 34])))"
  unfolding simple_trailing_junk_regex_def
  using pure_junk(2) assms by (rule eol_match_iff)

lemma sub_junk:
  assumes z: "z = [] \<or> last z \<noteq> 10"
  shows "re_sub_del no_flags trailing_junk_regex z = strip_at no_flags trailing_junk_regex [] z"
    and "re_sub_del no_flags simple_trailing_junk_regex z = strip_at no_flags simple_trailing_junk_regex [] z"
proof -
  have 1: "fst (snd m) = []"
    if "rev pre @ rest = z" "m \<in> set (rxm no_flags trailing_junk_regex (pre, rest, []))" for pre rest m
    using eol_anchored [OF z that(1)] that(2) unfolding trailing_junk_regex_def by blast
  have 2: "fst (snd m) = []"
    if "rev pre @ rest = z" "m \<in> set (rxm no_flags simple_trailing_junk_regex (pre, rest, []))" for pre rest m
    using eol_anchored [OF z that(1)] that(2) unfolding simple_trailing_junk_regex_def by blast
  show "re_sub_del no_flags trailing_junk_regex z = strip_at no_flags trailing_junk_regex [] z"
    unfolding re_sub_del_kept by (rule sub_del_anchored [of z]) (auto intro: 1)
  show "re_sub_del no_flags simple_trailing_junk_regex z = strip_at no_flags simple_trailing_junk_regex [] z"
    unfolding re_sub_del_kept by (rule sub_del_anchored [of z]) (auto intro: 2)
qed

lemma not_space_10: "\<not> isspace c \<Longrightarrow> c \<noteq> 10"
  by (auto simp: isspace_def)

lemma stripped_no_newline: "py_strip x = [] \<or> last (py_strip x) \<noteq> 10"
  using py_strip_ends(2) [of x] not_space_10 by blast

text \<open>What the first substitution leaves has no junk at its end.\<close>

lemma first_sub_clean:
  assumes "strip_at no_flags trailing_junk_regex [] (py_strip x) = a @ s" "s \<noteq> []"
  shows "s \<notin> junk"
proof -
  have H: "(rxm no_flags trailing_junk_regex (pre, rest, []) \<noteq> []) = (rest \<in> junk)"
    if "rev pre @ rest = py_strip x" for pre rest
    using stripped_no_newline that by (rule junk_match)
  from H junk_facts(2) junk_facts(1) assms show ?thesis
    by (rule strip_at_clean)
qed

lemma first_sub_last:
  assumes "strip_at no_flags trailing_junk_regex [] (py_strip x) = w" "w \<noteq> []"
  shows "\<not> in_class [Ch 41, Space, Ch 46, Ch 44, Ch 59, Ch 39, Ch 34] (last w)"
proof
  assume "in_class [Ch 41, Space, Ch 46, Ch 44, Ch 59, Ch 39, Ch 34] (last w)"
  then have "[last w] \<in> junk" by (rule junk_facts(3))
  moreover from assms have "strip_at no_flags trailing_junk_regex [] (py_strip x) = butlast w @ [last w]"
    by simp
  from first_sub_clean [OF this] have "[last w] \<notin> junk" by simp
  ultimately show False by simp
qed

lemma clean_link_strip:
  "clean_link x = strip_at no_flags trailing_junk_regex [] (py_strip x)"
proof -
  let ?w = "strip_at no_flags trailing_junk_regex [] (py_strip x)"
  have n: "?w = [] \<or> last ?w \<noteq> 10"
    using first_sub_last [of x ?w] by (auto simp: in_class_def isspace_def)
  have "strip_at no_flags simple_trailing_junk_regex [] ?w = ?w"
  proof (rule strip_at_fixed [of ?w no_flags simple_trailing_junk_regex
        "lang no_flags (Plus1 (In [Ch 41, Space, Ch 46, Ch 44, Ch 59, Ch 39, Ch 34]))" "[]" ?w])
    show "(rxm no_flags simple_trailing_junk_regex (pre, rest, []) \<noteq> [])
           = (rest \<in> lang no_flags (Plus1 (In [Ch 41, Space, Ch 46, Ch 44, Ch 59, Ch 39, Ch 34])))"
      if "rev pre @ rest = ?w" for pre rest
      using n that by (rule simple_junk_match)
    show "s \<notin> lang no_flags (Plus1 (In [Ch 41, Space, Ch 46, Ch 44, Ch 59, Ch 39, Ch 34]))"
      if "?w = a @ s" "s \<noteq> []" for a s
      using first_sub_clean [OF that] simple_junk_is_junk by blast
    show "rev [] @ ?w = ?w" by simp
  qed
  then show ?thesis
    by (simp add: clean_link_def sub_junk(1) [OF stripped_no_newline] sub_junk(2) [OF n])
qed

lemma clean_link_prefix: "\<exists>j. py_strip x = clean_link x @ j \<and> j \<in> junk"
proof -
  have H: "(rxm no_flags trailing_junk_regex (pre, rest, []) \<noteq> []) = (rest \<in> junk)"
    if "rev pre @ rest = py_strip x" for pre rest
    using stripped_no_newline that by (rule junk_match)
  from strip_at_suffix [of "py_strip x" no_flags trailing_junk_regex junk "[]" "py_strip x", OF H]
  obtain j where "py_strip x = clean_link x @ j" "j = [] \<or> j \<in> junk"
    by (auto simp: clean_link_strip)
  with junk_facts(1) show ?thesis by auto
qed

lemma clean_link_no_junk: "clean_link x = a @ s \<Longrightarrow> s \<noteq> [] \<Longrightarrow> s \<notin> junk"
  unfolding clean_link_strip by (rule first_sub_clean)

lemma clean_link_stripped: "py_strip (clean_link x) = clean_link x"
proof (cases "clean_link x = []")
  case True
  then show ?thesis by (simp add: py_strip_Nil)
next
  case False
  from clean_link_prefix obtain j where j: "py_strip x = clean_link x @ j" by blast
  with False have "py_strip x \<noteq> []" "hd (py_strip x) = hd (clean_link x)" by simp_all
  with py_strip_ends(1) [of x] have h: "\<not> isspace (hd (clean_link x))" by simp
  from first_sub_last [of x "clean_link x"] False
  have "\<not> isspace (last (clean_link x))"
    by (simp add: clean_link_strip in_class_def)
  with False h show ?thesis by (intro strip_plain)
qed

lemma clean_link_idem: "clean_link (clean_link x) = clean_link x"
proof -
  let ?w = "clean_link x"
  have n: "?w = [] \<or> last ?w \<noteq> 10"
    using first_sub_last [of x ?w] by (auto simp: clean_link_strip in_class_def isspace_def)
  have "strip_at no_flags trailing_junk_regex [] ?w = ?w"
  proof (rule strip_at_fixed [of ?w no_flags trailing_junk_regex junk "[]" ?w])
    show "(rxm no_flags trailing_junk_regex (pre, rest, []) \<noteq> []) = (rest \<in> junk)"
      if "rev pre @ rest = ?w" for pre rest
      using n that by (rule junk_match)
    show "s \<notin> junk" if "?w = a @ s" "s \<noteq> []" for a s
      using that by (rule clean_link_no_junk)
    show "rev [] @ ?w = ?w" by simp
  qed
  then show ?thesis
    using clean_link_strip [of ?w] by (simp add: clean_link_stripped)
qed

section \<open>Deleting the characters outside a class\<close>

lemma scan_skip_app: "scan fl r pre (a @ b) (length a) adv = scan fl r (rev a @ pre) b 0 adv"
  by (induction a arbitrary: pre) (simp_all del: scan.simps(3,4))

lemma class_star_first:
  "\<exists>ms. rxm fl (Star (NotIn cs)) (pre, rest, g)
     = (rev (takeWhile (\<lambda>c. \<not> in_class cs c) rest) @ pre, dropWhile (\<lambda>c. \<not> in_class cs c) rest, g) # ms"
proof (induction rest arbitrary: pre)
  case Nil
  show ?case by simp
next
  case (Cons c rest)
  show ?case
  proof (cases "in_class cs c")
    case True
    then show ?thesis by simp
  next
    case False
    from Cons [of "c # pre"] obtain ms where
      "rxm fl (Star (NotIn cs)) (c # pre, rest, g)
         = (rev (takeWhile (\<lambda>c. \<not> in_class cs c) rest) @ c # pre, dropWhile (\<lambda>c. \<not> in_class cs c) rest, g) # ms"
      by blast
    moreover have "rxm fl (Star (NotIn cs)) (pre, c # rest, g)
        = rxm fl (Star (NotIn cs)) (c # pre, rest, g) @ [(pre, c # rest, g)]"
      using False by (subst rxm.simps(9)) (simp add: remaining_def del: rxm.simps(9))
    ultimately show ?thesis using False by simp
  qed
qed

lemma non_class_first_match:
  "first_match fl (Plus1 (NotIn cs)) adv (pre, [], g) = None"
  "in_class cs c \<Longrightarrow> first_match fl (Plus1 (NotIn cs)) adv (pre, c # rest, g) = None"
  "\<not> in_class cs c \<Longrightarrow> \<exists>p. first_match fl (Plus1 (NotIn cs)) adv (pre, c # rest, g)
       = Some (p, dropWhile (\<lambda>c. \<not> in_class cs c) rest, g)"
proof -
  show "first_match fl (Plus1 (NotIn cs)) adv (pre, [], g) = None"
    by (simp add: first_match_def Plus1_def del: rxm.simps(9))
  show "in_class cs c \<Longrightarrow> first_match fl (Plus1 (NotIn cs)) adv (pre, c # rest, g) = None"
    by (simp add: first_match_def Plus1_def del: rxm.simps(9))
  assume n: "\<not> in_class cs c"
  from class_star_first [of fl cs "c # pre" rest g] obtain ms where
    "rxm fl (Star (NotIn cs)) (c # pre, rest, g)
       = (rev (takeWhile (\<lambda>c. \<not> in_class cs c) rest) @ c # pre, dropWhile (\<lambda>c. \<not> in_class cs c) rest, g) # ms"
    by blast
  with n have "rxm fl (Plus1 (NotIn cs)) (pre, c # rest, g)
       = (rev (takeWhile (\<lambda>c. \<not> in_class cs c) rest) @ c # pre, dropWhile (\<lambda>c. \<not> in_class cs c) rest, g) # ms"
    by (simp add: Plus1_def del: rxm.simps(9))
  moreover have "length (dropWhile (\<lambda>c. \<not> in_class cs c) rest) < Suc (length rest)"
    by (simp add: length_dropWhile_le less_Suc_eq_le)
  ultimately show "\<exists>p. first_match fl (Plus1 (NotIn cs)) adv (pre, c # rest, g)
       = Some (p, dropWhile (\<lambda>c. \<not> in_class cs c) rest, g)"
    by (simp add: first_match_def remaining_def del: rxm.simps)
qed

lemma sub_del_non_class:
  "kept (scan fl (Plus1 (NotIn cs)) pre rest 0 adv) = filter (in_class cs) rest"
proof (induction "length rest" arbitrary: rest pre adv rule: less_induct)
  case less
  show ?case
  proof (cases rest)
    case Nil
    then show ?thesis by (simp add: kept_scan_end del: scan.simps)
  next
    case (Cons c rest')
    show ?thesis
    proof (cases "in_class cs c")
      case True
      with non_class_first_match(2) [of cs c fl adv pre rest' "[]"]
      have "scan fl (Plus1 (NotIn cs)) pre (c # rest') 0 adv
              = Keep c # scan fl (Plus1 (NotIn cs)) (c # pre) rest' 0 False"
        by simp
      with less [of rest' "c # pre" False] Cons True show ?thesis
        by (simp add: kept_simps del: scan.simps)
    next
      case False
      let ?P = "\<lambda>c. \<not> in_class cs c"
      from non_class_first_match(3) [OF False, of fl adv pre rest' "[]"] obtain p where
        f: "first_match fl (Plus1 (NotIn cs)) adv (pre, c # rest', []) = Some (p, dropWhile ?P rest', [])"
        by blast
      have l: "Suc (length rest') - remaining (p, dropWhile ?P rest', []) = Suc (length (takeWhile ?P rest'))"
      proof -
        have "length rest' = length (takeWhile ?P rest') + length (dropWhile ?P rest')"
          by (metis length_append takeWhile_dropWhile_id)
        then show ?thesis by (simp add: remaining_def)
      qed
      have "scan fl (Plus1 (NotIn cs)) pre (c # rest') 0 adv
              = Hit (p, dropWhile ?P rest', [])
                # scan fl (Plus1 (NotIn cs)) pre (c # rest') (length (c # takeWhile ?P rest')) False"
        by (subst scan.simps(4)) (simp add: f l del: scan.simps)
      moreover have "c # rest' = (c # takeWhile ?P rest') @ dropWhile ?P rest'" by simp
      ultimately have "scan fl (Plus1 (NotIn cs)) pre (c # rest') 0 adv
              = Hit (p, dropWhile ?P rest', [])
                # scan fl (Plus1 (NotIn cs)) (rev (c # takeWhile ?P rest') @ pre) (dropWhile ?P rest') 0 False"
        using scan_skip_app [of fl "Plus1 (NotIn cs)" pre "c # takeWhile ?P rest'" "dropWhile ?P rest'" False]
        by (simp only:)
      moreover have "length (dropWhile ?P rest') < length rest"
        using Cons by (simp add: length_dropWhile_le less_Suc_eq_le)
      moreover have "filter (in_class cs) (dropWhile ?P rest') = filter (in_class cs) rest'"
        by (induction rest') auto
      ultimately show ?thesis
        using less [of "dropWhile ?P rest'"] Cons False
        by (simp add: kept_simps del: scan.simps)
    qed
  qed
qed

lemma normalize_engine_name_filter:
  "normalize_engine_name s = map ascii_lower (filter is_ascii_letter s)"
proof -
  have "in_class [Rng 97 122, Rng 65 90] = is_ascii_letter"
    by (rule ext) (simp add: in_class_def is_ascii_letter_def)
  then show ?thesis
    by (simp add: normalize_engine_name_def non_letters_regex_def re_sub_del_kept
          sub_del_non_class py_lower_def)
qed

section \<open>The engine selection\<close>

lemma filter_dropWhile: "(\<And>c. Q c \<Longrightarrow> \<not> P c) \<Longrightarrow> filter P (dropWhile Q xs) = filter P xs"
  by (induction xs) auto

lemma filter_py_strip:
  assumes "\<And>c. isspace c \<Longrightarrow> \<not> P c"
  shows "filter P (py_strip s) = filter P s"
proof -
  have "filter P (py_strip s) = rev (filter P (dropWhile isspace (rev (dropWhile isspace s))))"
    by (simp add: py_strip_def rev_filter)
  also have "\<dots> = rev (filter P (rev (dropWhile isspace s)))"
    using assms by (simp add: filter_dropWhile)
  also have "\<dots> = filter P (dropWhile isspace s)"
    by (simp add: rev_filter)
  also have "\<dots> = filter P s"
    using assms by (rule filter_dropWhile)
  finally show ?thesis .
qed

lemma space_is_no_letter: "isspace c \<Longrightarrow> \<not> is_ascii_letter c"
  by (auto simp: isspace_def is_ascii_letter_def)

text \<open>
  C3. The engine chosen by the selection stage is always one of \<open>serpapi\<close>, \<open>naver\<close> and
  \<open>ces\<close>. It is \<open>ces\<close> when the selector raises; otherwise the selector's output (\<open>CES\<close> when
  the key is missing) is reduced to its ASCII letters, in lower case, and the result is the
  engine if it is one of the three names and \<open>ces\<close> if it is not.
\<close>

theorem engine_choice_is_total:
  "choose_stage env r \<in> {U ''serpapi'', U ''naver'', U ''ces''}
   \<and> (choose_chain env r = Inl e \<longrightarrow> choose_stage env r = U ''ces'')
   \<and> (choose_chain env r = Inr v \<longrightarrow>
        choose_stage env r
          = (if map ascii_lower (filter is_ascii_letter (dict_get v (U ''CES'')))
                  \<in> {U ''serpapi'', U ''naver'', U ''ces''}
             then map ascii_lower (filter is_ascii_letter (dict_get v (U ''CES'')))
             else U ''ces''))"
proof -
  have n: "normalize_engine_name (py_strip s) = map ascii_lower (filter is_ascii_letter s)" for s
    by (simp add: normalize_engine_name_filter filter_py_strip space_is_no_letter)
  have 1: "choose_stage env r = U ''ces''" if "choose_chain env r = Inl e"
    using that by (simp add: choose_stage_def)
  have 2: "choose_stage env r
          = (if map ascii_lower (filter is_ascii_letter (dict_get v (U ''CES'')))
                  \<in> {U ''serpapi'', U ''naver'', U ''ces''}
             then map ascii_lower (filter is_ascii_letter (dict_get v (U ''CES'')))
             else U ''ces'')"
    if "choose_chain env r = Inr v"
    using that by (simp add: choose_stage_def Let_def n ENGINES_def)
  have 3: "choose_stage env r \<in> {U ''serpapi'', U ''naver'', U ''ces''}"
  proof (cases "choose_chain env r")
    case (Inl e')
    then show ?thesis by (simp add: choose_stage_def)
  next
    case (Inr v')
    then show ?thesis by (simp add: choose_stage_def Let_def ENGINES_def)
  qed
  from 1 2 3 show ?thesis by (intro conjI impI)
qed

theorem engine_choice_is_total_witness:
  "choose_stage base_env query_ieung = U ''naver''
   \<and> choose_stage env_choose_serp query_ieung = U ''serpapi''
   \<and> choose_stage env_choose_unknown query_ieung = U ''ces''
   \<and> choose_stage env_choose_raises query_ieung = U ''ces''"
proof -
  have 1: "choose_stage base_env query_ieung = U ''naver''"
    using engine_choice_is_total [of base_env query_ieung "OtherError []" "Some (U ''Naver.'')"]
    by (simp add: base_env_def dict_get_def) (simp add: U_def is_ascii_letter_def ascii_lower_def)
  have 2: "choose_stage env_choose_serp query_ieung = U ''serpapi''"
    using engine_choice_is_total [of env_choose_serp query_ieung "OtherError []"
        "Some (U '' Serp-API 1'' @ [10])"]
    by (simp add: env_choose_serp_def dict_get_def) (simp add: U_def is_ascii_letter_def ascii_lower_def)
  have 3: "choose_stage env_choose_unknown query_ieung = U ''ces''"
    using engine_choice_is_total [of env_choose_unknown query_ieung "OtherError []" "Some (U ''google'')"]
    by (simp add: env_choose_unknown_def dict_get_def) (simp add: U_def is_ascii_letter_def ascii_lower_def)
  have 4: "choose_stage env_choose_raises query_ieung = U ''ces''"
    using engine_choice_is_total [of env_choose_raises query_ieung "OtherError (U ''timeout'')" None]
    by (simp add: env_choose_raises_def)
  from 1 2 3 4 show ?thesis by simp
qed

section \<open>The cleaning loop\<close>

lemma set_append_new: "set (append_new acc x) = insert x (set acc)"
  by (auto simp: append_new_def)

lemma distinct_append_new: "distinct acc \<Longrightarrow> distinct (append_new acc x)"
  by (simp add: append_new_def)

lemma clean_links_Cons:
  "clean_links up (l # ls) acc =
     (if l = [] then clean_links up ls acc
      else case up (clean_link l) of
             Inl (ValueError m) \<Rightarrow> clean_links up ls acc
           | Inl (OtherError m) \<Rightarrow> Inl (OtherError m)
           | Inr p \<Rightarrow> clean_links up ls
                        (if well_formed up (clean_link l) then append_new acc (clean_link l) else acc))"
  by (simp add: well_formed_def Let_def split: sum.splits error.splits prod.splits)

lemma clean_links_out:
  "clean_links up raw acc = Inr out \<Longrightarrow>
     set out = set acc \<union> {clean_link l |l. l \<in> set raw \<and> l \<noteq> [] \<and> well_formed up (clean_link l)}
     \<and> (distinct acc \<longrightarrow> distinct out)"
proof (induction raw arbitrary: acc)
  case Nil
  then show ?case by simp
next
  case (Cons l ls)
  show ?case
  proof (cases "l = []")
    case True
    with Cons.prems have "clean_links up ls acc = Inr out" by simp
    from Cons.IH [OF this] True show ?thesis by auto
  next
    case False
    show ?thesis
    proof (cases "up (clean_link l)")
      case (Inl e)
      then have w: "\<not> well_formed up (clean_link l)" by (simp add: well_formed_def)
      from Inl False Cons.prems have "clean_links up ls acc = Inr out"
        by (cases e) (simp_all add: clean_links_Cons del: clean_links.simps)
      from Cons.IH [OF this] w show ?thesis by auto
    next
      case (Inr p)
      with False Cons.prems have
        "clean_links up ls (if well_formed up (clean_link l) then append_new acc (clean_link l) else acc)
           = Inr out"
        by (simp add: clean_links_Cons del: clean_links.simps)
      from Cons.IH [OF this] False show ?thesis
        by (auto simp: set_append_new distinct_append_new)
    qed
  qed
qed

lemma clean_links_fixed:
  "distinct (acc @ ls) \<Longrightarrow> \<forall>l\<in>set ls. l \<noteq> [] \<and> clean_link l = l \<and> well_formed up l
     \<Longrightarrow> clean_links up ls acc = Inr (acc @ ls)"
proof (induction ls arbitrary: acc)
  case Nil
  show ?case by simp
next
  case (Cons l ls)
  from Cons.prems(2) have l: "l \<noteq> []" "clean_link l = l" "well_formed up l" by simp_all
  from l(3) obtain p where p: "up l = Inr p" by (cases "up l") (simp_all add: well_formed_def)
  from Cons.prems(1) have n: "append_new acc l = acc @ [l]" by (simp add: append_new_def)
  from Cons.prems have "clean_links up ls (acc @ [l]) = Inr ((acc @ [l]) @ ls)"
    by (intro Cons.IH) simp_all
  with l p n show ?case by (simp add: clean_links_Cons del: clean_links.simps)
qed

lemma clean_links_idem:
  assumes e: "\<not> well_formed up []" and c: "clean_links up raw [] = Inr ls"
  shows "clean_links up ls [] = Inr ls"
proof -
  from clean_links_out [OF c] have
    s: "set ls = {clean_link l |l. l \<in> set raw \<and> l \<noteq> [] \<and> well_formed up (clean_link l)}"
    and d: "distinct ls" by simp_all
  have "\<forall>l\<in>set ls. l \<noteq> [] \<and> clean_link l = l \<and> well_formed up l"
  proof
    fix l
    assume "l \<in> set ls"
    with s obtain x where x: "l = clean_link x" "well_formed up (clean_link x)" by auto
    with e have "l \<noteq> []" by auto
    with x show "l \<noteq> [] \<and> clean_link l = l \<and> well_formed up l" by (simp add: clean_link_idem)
  qed
  with d show ?thesis using clean_links_fixed [of "[]" ls up] by simp
qed

lemma parse_links:
  "clean_links up (found_links_raw s) [] = Inr ls \<Longrightarrow> snd (parse_agent_observation up (PyStr s)) = ls"
  by (simp add: parse_agent_observation_def parse_body_def)

lemma parse_links_cases:
  "snd (parse_agent_observation up (PyStr s)) = []
   \<or> clean_links up (found_links_raw s) [] = Inr (snd (parse_agent_observation up (PyStr s)))"
  by (cases "clean_links up (found_links_raw s) []") (simp_all add: parse_agent_observation_def parse_body_def)

section \<open>The characters that the cleaning removes\<close>







section \<open>The example of the spec\<close>

lemma example_found:
  "found_links_raw example_raw = [example_raw]"
  "found_links_raw example_text = [example_raw]"
proof -
  have m: "re_findall no_flags markdown_link_regex example_raw = []"
    by (simp add: example_raw_def rx_eval)
  have p: "re_findall no_flags plain_link_regex example_raw = [example_raw]"
    by (simp add: example_raw_def rx_eval)
  show "found_links_raw example_raw = [example_raw]"
    by (simp add: found_links_raw_def m p fromkeys_def append_new_def)
  have m': "re_findall no_flags markdown_link_regex example_text = []"
    by (simp add: example_text_def rx_eval)
  have p': "re_findall no_flags plain_link_regex example_text = [example_raw]"
    by (simp add: example_text_def example_raw_def rx_eval)
  show "found_links_raw example_text = [example_raw]"
    by (simp add: found_links_raw_def m' p' fromkeys_def append_new_def)
qed

lemma example_clean: "clean_link example_raw = example_link"
proof -
  have s: "py_strip example_raw = example_raw"
    by (rule strip_plain) (simp_all add: example_raw_def U_def isspace_def)
  have j1: "re_sub_del no_flags trailing_junk_regex example_raw = example_link"
    by (simp add: example_raw_def example_link_def rx_eval)
  have j2: "re_sub_del no_flags simple_trailing_junk_regex example_link = example_link"
    by (simp add: example_link_def rx_eval)
  show ?thesis by (simp add: clean_link_def s j1 j2)
qed

lemma example_ne: "example_raw \<noteq> []" "example_link \<noteq> []"
  by (simp_all add: example_raw_def example_link_def U_def)

lemma example_well_formed: "well_formed urlparse_plain example_link"
  by (simp add: well_formed_def urlparse_plain_def example_link_def U_def is_ascii_letter_def
        py_lower_def ascii_lower_def startswith_def Let_def)

lemma plain_empty: "\<not> well_formed urlparse_plain []"
  by (simp add: well_formed_def urlparse_plain_def)

lemma example_loop:
  assumes "well_formed up example_link"
  shows "clean_links up [example_raw] [] = Inr [example_link]"
proof -
  from assms obtain p where "up example_link = Inr p"
    by (cases "up example_link") (simp_all add: well_formed_def)
  with assms show ?thesis
    by (simp add: clean_links_Cons example_ne example_clean append_new_def del: clean_links.simps(2))
qed



section \<open>Cleaning twice\<close>

text \<open>
  C8, as amended. The cleaning and validation loop is idempotent: run again on a list it has
  produced (in particular on a link list returned by the parser) it returns the same list,
  element for element, provided \<open>urlparse\<close> finds no scheme and host in the empty string; and
  cleaning one link twice is cleaning it once.
\<close>

theorem link_cleaning_is_idempotent:
  assumes "\<not> well_formed up []"
  shows "(clean_links up raw [] = Inr ls \<longrightarrow> clean_links up ls [] = Inr ls)
       \<and> clean_links up (snd (parse_agent_observation up (PyStr observation))) []
           = Inr (snd (parse_agent_observation up (PyStr observation)))
       \<and> clean_link (clean_link x) = clean_link x"
proof (intro conjI impI)
  assume "clean_links up raw [] = Inr ls"
  with assms show "clean_links up ls [] = Inr ls" by (rule clean_links_idem)
next
  from parse_links_cases [of up observation]
  show "clean_links up (snd (parse_agent_observation up (PyStr observation))) []
           = Inr (snd (parse_agent_observation up (PyStr observation)))"
  proof
    assume "snd (parse_agent_observation up (PyStr observation)) = []"
    then show ?thesis by simp
  next
    assume "clean_links up (found_links_raw observation) [] = Inr (snd (parse_agent_observation up (PyStr observation)))"
    with assms show ?thesis by (rule clean_links_idem)
  qed
next
  show "clean_link (clean_link x) = clean_link x" by (rule clean_link_idem)
qed

theorem link_cleaning_is_idempotent_witness:
  "clean_links urlparse_plain [example_raw] [] = Inr [example_link]
   \<and> clean_links urlparse_plain [example_link] [] = Inr [example_link]
   \<and> snd (parse_agent_observation urlparse_plain (PyStr example_text)) = [example_link]
   \<and> clean_links urlparse_plain (snd (parse_agent_observation urlparse_plain (PyStr example_text))) []
       = Inr [example_link]"
proof -
  have r: "clean_links urlparse_plain [example_raw] [] = Inr [example_link]"
    using example_well_formed by (rule example_loop)
  then have p: "snd (parse_agent_observation urlparse_plain (PyStr example_text)) = [example_link]"
    by (intro parse_links) (simp only: example_found)
  note t = link_cleaning_is_idempotent [OF plain_empty, of "[example_raw]" "[example_link]" example_text
      example_raw]
  from t r have 1: "clean_links urlparse_plain [example_link] [] = Inr [example_link]"
    by (simp del: clean_links.simps(2))
  from t p have 2: "clean_links urlparse_plain (snd (parse_agent_observation urlparse_plain (PyStr example_text))) []
       = Inr [example_link]"
    by (simp del: clean_links.simps(2))
  from r 1 p 2 show ?thesis by (simp del: clean_links.simps(2))
qed

text \<open>
  C8 as stated fails for the extraction: the target of a markdown link with a title is
  returned by the parser as one link, and the parser run on that link returns another one.
\<close>

theorem reextraction_counterexample:
  "snd (parse_agent_observation urlparse_plain (PyStr titled_text)) = [titled_link]
   \<and> snd (parse_agent_observation urlparse_plain (PyStr titled_link)) = [U ''http://a.b'']
   \<and> U ''http://a.b'' \<noteq> titled_link"
proof -
  let ?raw = titled_raw
  let ?u = "U ''http://a.b''"
  have m: "re_findall no_flags markdown_link_regex titled_text = [?raw]"
    by (simp add: titled_text_def titled_raw_def rx_eval)
  have p: "re_findall no_flags plain_link_regex titled_text = []"
    by (simp add: titled_text_def rx_eval)
  have f: "found_links_raw titled_text = [?raw]"
    by (simp add: found_links_raw_def m p fromkeys_def append_new_def)
  have s: "py_strip ?raw = ?raw"
    by (rule strip_plain) (simp_all add: titled_raw_def U_def isspace_def)
  have j1: "re_sub_del no_flags trailing_junk_regex ?raw = titled_link"
    by (simp add: titled_link_def titled_raw_def rx_eval)
  have j2: "re_sub_del no_flags simple_trailing_junk_regex titled_link = titled_link"
    by (simp add: titled_link_def rx_eval)
  have c: "clean_link ?raw = titled_link"
    by (simp only: clean_link_def s j1 j2)
  have n: "?raw \<noteq> []" "titled_link \<noteq> []" "?u \<noteq> []"
    by (simp_all add: titled_link_def titled_raw_def U_def)
  have w: "well_formed urlparse_plain titled_link"
    by (simp add: well_formed_def urlparse_plain_def titled_link_def U_def is_ascii_letter_def
          py_lower_def ascii_lower_def startswith_def Let_def)
  then obtain q where q: "urlparse_plain titled_link = Inr q"
    by (cases "urlparse_plain titled_link") (simp_all add: well_formed_def)
  have "clean_links urlparse_plain [?raw] [] = Inr [titled_link]"
    by (simp add: clean_links_Cons n c w q append_new_def del: clean_links.simps(2))
  then have 1: "snd (parse_agent_observation urlparse_plain (PyStr titled_text)) = [titled_link]"
    by (intro parse_links) (simp only: f)
  have m': "re_findall no_flags markdown_link_regex titled_link = []"
    by (simp add: titled_link_def rx_eval)
  have p': "re_findall no_flags plain_link_regex titled_link = [?u]"
    by (simp add: titled_link_def rx_eval)
  have f': "found_links_raw titled_link = [?u]"
    by (simp add: found_links_raw_def m' p' fromkeys_def append_new_def)
  have s': "py_strip ?u = ?u"
    by (rule strip_plain) (simp_all add: U_def isspace_def)
  have j1': "re_sub_del no_flags trailing_junk_regex ?u = ?u"
    by (simp add: rx_eval)
  have j2': "re_sub_del no_flags simple_trailing_junk_regex ?u = ?u"
    by (simp add: rx_eval)
  have c': "clean_link ?u = ?u"
    by (simp only: clean_link_def s' j1' j2')
  have w': "well_formed urlparse_plain ?u"
    by (simp add: well_formed_def urlparse_plain_def U_def is_ascii_letter_def
          py_lower_def ascii_lower_def startswith_def Let_def)
  then obtain q' where q': "urlparse_plain ?u = Inr q'"
    by (cases "urlparse_plain ?u") (simp_all add: well_formed_def)
  have "clean_links urlparse_plain [?u] [] = Inr [?u]"
    by (simp add: clean_links_Cons n c' w' q' append_new_def del: clean_links.simps(2))
  then have 2: "snd (parse_agent_observation urlparse_plain (PyStr titled_link)) = [?u]"
    by (intro parse_links) (simp only: f')
  have 3: "?u \<noteq> titled_link" by (simp add: titled_link_def U_def)
  from 1 2 3 show ?thesis by simp
qed

end
